theory Spec2Isabelle
  imports Main "HOL-Library.Word"
begin

unbundle bit_operations_syntax

section \<open>The linker of scas: data model\<close>

text \<open>
  A shallow embedding of \<^verbatim>\<open>linker/linker.c\<close>. The structures \<^verbatim>\<open>symbol_t\<close>,
  \<^verbatim>\<open>late_immediate_t\<close> and \<^verbatim>\<open>area_t\<close> are declared in headers; their fields are
  taken from the way \<^verbatim>\<open>linker.c\<close> uses them. Addresses and values are
  \<^verbatim>\<open>uint64_t\<close> (the result of an expression, the running address of the placement
  loop), bytes are \<^verbatim>\<open>uint8_t\<close>. The expression of a late immediate and the source
  map of an area are opaque to the linker: they are type parameters \<open>'e\<close> and \<open>'m\<close>.
\<close>

type_synonym u8 = "8 word"
type_synonym u16 = "16 word"
type_synonym u64 = "64 word"

datatype symbol_type = SYMBOL_LABEL | SYMBOL_EQUATE

record symbol =
  sym_type :: symbol_type
  name :: string
  sym_value :: u64
  defined_address :: u64
  exported :: int

datatype immediate_type = IMM_TYPE_ABSOLUTE | IMM_TYPE_RELATIVE

record 'e late_immediate =
  imm_type :: immediate_type
  width :: nat
  instruction_address :: u64
  base_address :: u64
  address :: u64
  expression :: 'e

text \<open>
  The buffer \<^verbatim>\<open>data\<close> of an area holds \<^verbatim>\<open>data_length\<close> bytes: it is the list
  \<open>data\<close>, and \<^verbatim>\<open>data_length\<close> is its length as a \<^verbatim>\<open>uint64_t\<close>.
\<close>

record ('e, 'm) area =
  area_name :: string
  late_immediates :: "'e late_immediate list"
  symbols :: "symbol list"
  source_map :: 'm
  data :: "u8 list"
  final_address :: u64

definition data_length :: "('e, 'm) area \<Rightarrow> u64" where
  "data_length a = of_nat (length (data a))"

datatype error_code =
  ERROR_UNKNOWN_SYMBOL | ERROR_INVALID_SYNTAX | ERROR_VALUE_TRUNCATED | ERROR_DUPLICATE_SYMBOL

text \<open>
  A diagnostic: its code, the source map and the address it is located with, and the
  string argument of the message (the symbol's name) when there is one.
\<close>

datatype 'm error = Error error_code 'm u64 "string option"

text \<open>
  Undefined behaviour of the C code is a value of the model: a write past the end of an
  area's buffer, and the use of a relocation table that does not exist.
\<close>

datatype fault = OutOfBounds | NullPointer

datatype expression_error = EXPRESSION_SUCCESS | EXPRESSION_BAD_SYMBOL | EXPRESSION_BAD_SYNTAX

text \<open>
  \<^verbatim>\<open>evaluate_expression(expression, symbols, &error, &symbol)\<close> belongs to the
  expression evaluator, which is not part of the linker. It is a parameter of the model:
  a function from the expression and the symbol list to the result, the error code and
  the name of the failing symbol.
\<close>

type_synonym 'e evaluator = "'e \<Rightarrow> symbol list \<Rightarrow> u64 \<times> expression_error \<times> string"

record 'm linker_settings =
  automatic_relocation :: bool
  errors :: "'m error list"

section \<open>Collaborators of the linker\<close>

text \<open>
  Modelled from the spec: \<^verbatim>\<open>list_add\<close> and \<^verbatim>\<open>list_del\<close> of \<^verbatim>\<open>list.h\<close> are
  missing from the sources. A list is an ordered sequence; \<^verbatim>\<open>list_add\<close> appends an item
  at the end and \<^verbatim>\<open>list_del\<close> removes the item at an index (the transient symbol is
  added, and removed again at index \<^verbatim>\<open>length - 1\<close>).
\<close>

definition list_add :: "'a list \<Rightarrow> 'a \<Rightarrow> 'a list" where
  "list_add l x = l @ [x]"

definition list_del :: "'a list \<Rightarrow> nat \<Rightarrow> 'a list" where
  "list_del l i = take i l @ drop (Suc i) l"

text \<open>
  Modelled from the spec: \<^verbatim>\<open>add_error_from_map\<close> of \<^verbatim>\<open>errors.h\<close> is missing from
  the sources. The diagnostic sink is append-only and never raises: one diagnostic is
  appended, with its kind, location, address and argument.
\<close>

definition add_error_from_map ::
  "'m error list \<Rightarrow> error_code \<Rightarrow> 'm \<Rightarrow> u64 \<Rightarrow> string option \<Rightarrow> 'm error list" where
  "add_error_from_map errs code smap addr arg = errs @ [Error code smap addr arg]"

text \<open>
  Modelled from the spec: \<^verbatim>\<open>append_to_area\<close> of \<^verbatim>\<open>objects.h\<close> is missing from the
  sources. It appends bytes at the end of an area's buffer.
\<close>

definition append_to_area :: "('e, 'm) area \<Rightarrow> u8 list \<Rightarrow> ('e, 'm) area" where
  "append_to_area a bytes = a\<lparr>data := data a @ bytes\<rparr>"

text \<open>
  Modelled from the spec: \<^verbatim>\<open>relocate_area\<close> of \<^verbatim>\<open>merge.h\<close> is missing from the
  sources. Placement assigns the area its final base address; with the flag
  \<^verbatim>\<open>immediates\<close> false the late immediates are left as they are.
\<close>

definition relocate_area :: "('e, 'm) area \<Rightarrow> u64 \<Rightarrow> bool \<Rightarrow> ('e, 'm) area" where
  "relocate_area a addr immediates = a\<lparr>final_address := addr\<rparr>"

text \<open>
  The bytes of a \<^verbatim>\<open>uint16_t\<close> in memory, as \<^verbatim>\<open>(uint8_t *)&value\<close> reads them on a
  little-endian host (the byte order of the Z80 itself, and of the hosts scas is built
  on).
\<close>

definition bytes_of_u16 :: "u16 \<Rightarrow> u8 list" where
  "bytes_of_u16 v = [ucast v, ucast (drop_bit 8 v)]"

text \<open>
  \<^verbatim>\<open>strcasecmp\<close> of the C library, in the C locale: the strings are compared byte by
  byte after \<^verbatim>\<open>tolower\<close>; the result is zero for equal strings, negative or positive
  otherwise.
\<close>

definition tolower :: "char \<Rightarrow> char" where
  "tolower c =
     (case map_of (zip ''ABCDEFGHIJKLMNOPQRSTUVWXYZ'' ''abcdefghijklmnopqrstuvwxyz'') c of
        Some l \<Rightarrow> l
      | None \<Rightarrow> c)"

fun strcasecmp :: "string \<Rightarrow> string \<Rightarrow> int" where
  "strcasecmp [] [] = 0"
| "strcasecmp [] (y # ys) = -1"
| "strcasecmp (x # xs) [] = 1"
| "strcasecmp (x # xs) (y # ys) =
     (if tolower x = tolower y then strcasecmp xs ys
      else if (of_char (tolower x) :: nat) < of_char (tolower y) then -1 else 1)"

section \<open>Symbol lookup and gathering\<close>

text \<open>
  \<^verbatim>\<open>find_symbol\<close>: the first symbol of the list whose name compares equal, or
  \<^verbatim>\<open>NULL\<close>.
\<close>

fun find_symbol :: "symbol list \<Rightarrow> string \<Rightarrow> symbol option" where
  "find_symbol [] n = None"
| "find_symbol (s # rest) n =
     (if strcasecmp (name s) n = 0 then Some s else find_symbol rest n)"

text \<open>
  \<^verbatim>\<open>gather_symbols\<close>: the loop over the area's symbols. The table and the
  diagnostics are threaded through; the area's own list is not changed by the loop.
  The global table holds pointers to the areas' symbols; the model holds the symbols,
  since nothing reads an area's own symbol list after gathering.
\<close>

fun gather_loop ::
  "'m \<Rightarrow> symbol list \<Rightarrow> symbol list \<times> 'm error list \<Rightarrow> symbol list \<times> 'm error list" where
  "gather_loop smap [] st = st"
| "gather_loop smap (s # rest) (syms, errs) =
     (if find_symbol syms (name s) \<noteq> None
      then gather_loop smap rest
             (syms, add_error_from_map errs ERROR_DUPLICATE_SYMBOL smap
                      (defined_address s) (Some (name s)))
      else gather_loop smap rest (list_add syms s, errs))"

definition gather_symbols ::
  "symbol list \<Rightarrow> ('e, 'm) area \<Rightarrow> 'm error list \<Rightarrow> symbol list \<times> 'm error list" where
  "gather_symbols syms a errs = gather_loop (source_map a) (symbols a) (syms, errs)"

text \<open>The second loop of \<^verbatim>\<open>link_objects\<close>: every area's symbols, in order.\<close>

fun gather_areas ::
  "('e, 'm) area list \<Rightarrow> symbol list \<times> 'm error list \<Rightarrow> symbol list \<times> 'm error list" where
  "gather_areas [] st = st"
| "gather_areas (a # rest) (syms, errs) = gather_areas rest (gather_symbols syms a errs)"

text \<open>\<^verbatim>\<open>move_origin\<close>: the origin is added to the value of every symbol.\<close>

definition move_origin :: "u64 \<Rightarrow> symbol list \<Rightarrow> symbol list" where
  "move_origin origin syms = map (\<lambda>s. s\<lparr>sym_value := sym_value s + origin\<rparr>) syms"

section \<open>Resolving late immediates\<close>

text \<open>
  The mask loop of \<^verbatim>\<open>resolve_immediate_values\<close>:
  \<^verbatim>\<open>int shift = imm->width; while (--shift) { mask <<= 1; mask |= 1; }\<close>.
  The counter is an \<^verbatim>\<open>int\<close>, here a 32-bit word whose decrement wraps; for a width of
  at least 1 the loop runs \<^verbatim>\<open>width - 1\<close> times and no wrap occurs.
\<close>

function mask_loop :: "32 word \<Rightarrow> u64 \<Rightarrow> u64" where
  "mask_loop shift m =
     (if shift - 1 \<noteq> 0 then mask_loop (shift - 1) (push_bit 1 m OR 1) else m)"
  by pat_completeness auto
termination
proof (relation "measure (\<lambda>(shift, m). unat (shift - 1))")
  show "wf (measure (\<lambda>(shift, m). unat (shift - 1)))"
    by simp
next
  fix shift :: "32 word" and m :: u64
  define x where "x = shift - 1"
  assume "shift - 1 \<noteq> 0"
  then have "x \<noteq> 0"
    by (simp add: x_def)
  then have "unat (x - 1) < unat x"
    by (simp add: unat_minus_one unat_gt_0)
  then show "((shift - 1, push_bit 1 m OR 1), (shift, m)) \<in> measure (\<lambda>(shift, m). unat (shift - 1))"
    by (simp add: x_def)
qed

declare mask_loop.simps [simp del]

definition width_mask :: "nat \<Rightarrow> u64" where
  "width_mask w = mask_loop (of_nat w) 1"

text \<open>
  The truncation checks. In the signed check \<^verbatim>\<open>1 << imm->width\<close> is an \<^verbatim>\<open>int\<close>,
  converted to \<^verbatim>\<open>uint64_t\<close> for the conjunction with the result.
\<close>

definition truncated_signed :: "nat \<Rightarrow> u64 \<Rightarrow> u64 \<Rightarrow> bool" where
  "truncated_signed w result m =
     ((result AND drop_bit 1 m) \<noteq> result \<and>
      ((result AND scast (push_bit w (1 :: 32 word))) = 0 \<or> (result AND NOT m) \<noteq> NOT m))"

definition truncated_unsigned :: "nat \<Rightarrow> u64 \<Rightarrow> u64 \<Rightarrow> bool" where
  "truncated_unsigned w result m =
     ((result AND m) \<noteq> result \<and> drop_bit w (NOT result) \<noteq> 0)"

text \<open>
  The patch loop:
  \<^verbatim>\<open>for (j = 0; j < imm->width / 8; ++j) { area->data[imm->address + j] |= (result & 0xFF); result >>= 8; }\<close>.
  A write at an index that is not below \<^verbatim>\<open>data_length\<close> is a fault. (The index is
  formed in \<^verbatim>\<open>uint64_t\<close>; a buffer is shorter than \<open>2^64\<close> bytes and the loop
  starts at \<open>j = 0\<close>, so the sum of an index inside the buffer never wraps.)
\<close>

function write_loop :: "u8 list \<Rightarrow> u64 \<Rightarrow> u64 \<Rightarrow> nat \<Rightarrow> nat \<Rightarrow> fault + u8 list" where
  "write_loop d addr result n j =
     (if j < n then
        (let i = unat addr + j in
         if i < length d
         then write_loop (d[i := d ! i OR ucast (result AND 0xFF)]) addr (drop_bit 8 result) n (Suc j)
         else Inl OutOfBounds)
      else Inr d)"
  by pat_completeness auto
termination
  by (relation "measure (\<lambda>(d, addr, result, n, j). n - j)") auto

declare write_loop.simps [simp del]

text \<open>The transient symbol \<^verbatim>\<open>sym_pc\<close>, named \<^verbatim>\<open>$\<close>; the fields that the
  initialiser does not name are zero.\<close>

definition sym_pc :: "u64 \<Rightarrow> symbol" where
  "sym_pc v = \<lparr>sym_type = SYMBOL_LABEL, name = ''$'', sym_value = v,
               defined_address = 0, exported = 0\<rparr>"

text \<open>
  The body of the loop of \<^verbatim>\<open>resolve_immediate_values\<close>, for one late immediate of
  an area with final address \<open>fa\<close> and source map \<open>smap\<close>. The state is the symbol
  list, the area's buffer and the diagnostics; the late immediate is returned with its
  two addresses made absolute.
\<close>

fun resolve_immediate ::
  "'e evaluator \<Rightarrow> u64 \<Rightarrow> 'm \<Rightarrow> 'e late_immediate \<Rightarrow> symbol list \<times> u8 list \<times> 'm error list \<Rightarrow>
   fault + ('e late_immediate \<times> symbol list \<times> u8 list \<times> 'm error list)" where
  "resolve_immediate eval fa smap imm0 (syms, d, errs) =
     (let imm = imm0\<lparr>instruction_address := instruction_address imm0 + fa,
                     base_address := base_address imm0 + fa\<rparr>;
          syms1 = list_add syms (sym_pc (instruction_address imm))
      in (case eval (expression imm) syms1 of (result, error, symbol) \<Rightarrow>
      (let syms2 = list_del syms1 (length syms1 - 1)
       in if error = EXPRESSION_BAD_SYMBOL then
            Inr (imm, syms2, d,
                 add_error_from_map errs ERROR_UNKNOWN_SYMBOL smap (instruction_address imm)
                   (Some symbol))
          else if error = EXPRESSION_BAD_SYNTAX then
            Inr (imm, syms2, d,
                 add_error_from_map errs ERROR_INVALID_SYNTAX smap (instruction_address imm) None)
          else
            (let result1 = (if imm_type imm = IMM_TYPE_RELATIVE then result - base_address imm
                            else result);
                 m = width_mask (width imm);
                 errs1 =
                   (if imm_type imm = IMM_TYPE_RELATIVE then
                      (if truncated_signed (width imm) result1 m
                       then add_error_from_map errs ERROR_VALUE_TRUNCATED smap
                              (instruction_address imm) None
                       else errs)
                    else
                      (if truncated_unsigned (width imm) result1 m
                       then add_error_from_map errs ERROR_VALUE_TRUNCATED smap
                              (instruction_address imm) None
                       else errs))
             in (case write_loop d (address imm) (result1 AND m) (width imm div 8) 0 of
                   Inl f \<Rightarrow> Inl f
                 | Inr d' \<Rightarrow> Inr (imm, syms2, d', errs1))))))"

fun resolve_loop ::
  "'e evaluator \<Rightarrow> u64 \<Rightarrow> 'm \<Rightarrow> 'e late_immediate list \<Rightarrow> symbol list \<times> u8 list \<times> 'm error list \<Rightarrow>
   fault + ('e late_immediate list \<times> symbol list \<times> u8 list \<times> 'm error list)" where
  "resolve_loop eval fa smap [] st = Inr ([], st)"
| "resolve_loop eval fa smap (imm # rest) st =
     (case resolve_immediate eval fa smap imm st of
        Inl f \<Rightarrow> Inl f
      | Inr (imm', st') \<Rightarrow>
          (case resolve_loop eval fa smap rest st' of
             Inl f \<Rightarrow> Inl f
           | Inr (imms, st'') \<Rightarrow> Inr (imm' # imms, st'')))"

definition resolve_immediate_values ::
  "'e evaluator \<Rightarrow> symbol list \<Rightarrow> ('e, 'm) area \<Rightarrow> 'm error list \<Rightarrow>
   fault + (symbol list \<times> ('e, 'm) area \<times> 'm error list)" where
  "resolve_immediate_values eval syms a errs =
     (case resolve_loop eval (final_address a) (source_map a) (late_immediates a)
             (syms, data a, errs) of
        Inl f \<Rightarrow> Inl f
      | Inr (imms, syms', d, errs') \<Rightarrow> Inr (syms', a\<lparr>late_immediates := imms, data := d\<rparr>, errs'))"

section \<open>Automatic relocation and placement\<close>

definition needs_relocation :: "'e late_immediate \<Rightarrow> bool" where
  "needs_relocation imm = (imm_type imm \<noteq> IMM_TYPE_RELATIVE \<and> base_address imm \<noteq> address imm)"

text \<open>
  \<^verbatim>\<open>auto_relocate_area(area, relocation_table)\<close>: the loop over the late immediates of
  the area, appending to the relocation table, which is another area than \<open>area\<close>
  (the caller's test \<^verbatim>\<open>area == relocation_table\<close>).
\<close>

fun auto_relocate_loop ::
  "u64 \<Rightarrow> 'e late_immediate list \<Rightarrow> ('e, 'm) area \<Rightarrow> ('e, 'm) area" where
  "auto_relocate_loop fa [] tbl = tbl"
| "auto_relocate_loop fa (imm # rest) tbl =
     (if imm_type imm \<noteq> IMM_TYPE_RELATIVE \<and> base_address imm \<noteq> address imm
      then auto_relocate_loop fa rest
             (append_to_area tbl (bytes_of_u16 (ucast (address imm + fa))))
      else auto_relocate_loop fa rest tbl)"

definition auto_relocate_area :: "('e, 'm) area \<Rightarrow> ('e, 'm) area \<Rightarrow> ('e, 'm) area" where
  "auto_relocate_area a relocation_table =
     auto_relocate_loop (final_address a) (late_immediates a) relocation_table"

text \<open>
  The body of the placement loop of \<^verbatim>\<open>link_objects\<close>, for the area at index \<open>i\<close>
  of the merged object. The areas are a store indexed by position, since the relocation
  table is one of them and is written while other areas are placed. \<open>rt\<close> is the
  result of \<^verbatim>\<open>get_area_by_name(merged, "__scas_relocation_table")\<close>: the index of that
  area, or \<open>None\<close> for \<^verbatim>\<open>NULL\<close>. Appending to a table that does not exist is a fault.
\<close>

definition place_area ::
  "'m linker_settings \<Rightarrow> nat option \<Rightarrow> nat \<Rightarrow> u64 \<Rightarrow> ('e, 'm) area list \<Rightarrow>
   fault + ('e, 'm) area list" where
  "place_area settings rt i addr areas =
     (let areas1 = areas[i := relocate_area (areas ! i) addr False] in
      if automatic_relocation settings then
        (if rt = Some i then
           Inr (areas1[i := append_to_area (areas1 ! i) (bytes_of_u16 0)])
         else
           (case rt of
              None \<Rightarrow>
                if list_ex needs_relocation (late_immediates (areas1 ! i))
                then Inl NullPointer else Inr areas1
            | Some k \<Rightarrow>
                if k < length areas1
                then Inr (areas1[k := auto_relocate_area (areas1 ! i) (areas1 ! k)])
                else Inl NullPointer))
      else Inr areas1)"

function place_from ::
  "'m linker_settings \<Rightarrow> nat option \<Rightarrow> nat \<Rightarrow> u64 \<Rightarrow> ('e, 'm) area list \<Rightarrow>
   fault + ('e, 'm) area list" where
  "place_from settings rt i addr areas =
     (if i < length areas then
        (case place_area settings rt i addr areas of
           Inl f \<Rightarrow> Inl f
         | Inr areas' \<Rightarrow> place_from settings rt (Suc i) (addr + data_length (areas' ! i)) areas')
      else Inr areas)"
  by pat_completeness auto
termination
proof (relation "measure (\<lambda>(settings, rt, i, addr, areas). length areas - i)")
  show "wf (measure (\<lambda>(settings, rt, i, addr, areas). length areas - i))"
    by simp
next
  fix settings :: "'m linker_settings" and rt :: "nat option" and i :: nat and addr :: u64
    and areas areas' :: "('e, 'm) area list"
  assume i: "i < length areas" and p: "place_area settings rt i addr areas = Inr areas'"
  from p have "length areas' = length areas"
    by (auto simp: place_area_def Let_def split: if_splits option.splits)
  with i show "((settings, rt, Suc i, addr + data_length (areas' ! i), areas'),
              (settings, rt, i, addr, areas))
             \<in> measure (\<lambda>(settings, rt, i, addr, areas). length areas - i)"
    by simp
qed

declare place_from.simps [simp del]

section \<open>The link driver\<close>

text \<open>
  The third loop of \<^verbatim>\<open>link_objects\<close>: per area, the origin is added to every symbol
  when it is not zero, the late immediates are resolved and the area's buffer is
  appended to the buffer of the area \<^verbatim>\<open>FINAL\<close>. The areas are returned as the loop
  leaves them.
\<close>

fun emit_areas ::
  "'e evaluator \<Rightarrow> u64 \<Rightarrow> ('e, 'm) area list \<Rightarrow> symbol list \<times> 'm error list \<times> u8 list \<Rightarrow>
   fault + (('e, 'm) area list \<times> symbol list \<times> 'm error list \<times> u8 list)" where
  "emit_areas eval origin [] st = Inr ([], st)"
| "emit_areas eval origin (a # rest) (syms, errs, final) =
     (let syms1 = (if origin \<noteq> 0 then move_origin origin syms else syms) in
      case resolve_immediate_values eval syms1 a errs of
        Inl f \<Rightarrow> Inl f
      | Inr (syms2, a', errs') \<Rightarrow>
          (case emit_areas eval origin rest (syms2, errs', final @ data a') of
             Inl f \<Rightarrow> Inl f
           | Inr (areas, st') \<Rightarrow> Inr (a' # areas, st')))"

text \<open>
  What a run of \<^verbatim>\<open>link_objects\<close> leaves: the buffer and the length handed to
  \<^verbatim>\<open>write_output\<close> (the length is cast to \<^verbatim>\<open>int\<close>), the diagnostics, the symbol
  table as it is before \<^verbatim>\<open>list_free\<close>, and the areas of the merged object.
\<close>

record ('e, 'm) link_result =
  out_data :: "u8 list"
  out_length :: int
  diagnostics :: "'m error list"
  symbol_table :: "symbol list"
  merged_areas :: "('e, 'm) area list"

text \<open>
  \<^verbatim>\<open>link_objects\<close>, from the merged object on: \<^verbatim>\<open>merge_objects\<close> and
  \<^verbatim>\<open>remove_unused_functions\<close> are collaborators outside the linker, so the model takes
  the areas of the merged object (after the optional stripping) and the relocation
  table found in it. \<open>origin\<close> is \<^verbatim>\<open>scas_runtime.options.origin\<close>.
\<close>

definition link_objects ::
  "'e evaluator \<Rightarrow> u64 \<Rightarrow> 'm linker_settings \<Rightarrow> nat option \<Rightarrow> ('e, 'm) area list \<Rightarrow>
   fault + ('e, 'm) link_result" where
  "link_objects eval origin settings rt areas =
     (case place_from settings rt 0 0 areas of
        Inl f \<Rightarrow> Inl f
      | Inr placed \<Rightarrow>
          (case gather_areas placed ([], errors settings) of (syms, errs) \<Rightarrow>
           (case emit_areas eval origin placed (syms, errs, []) of
              Inl f \<Rightarrow> Inl f
            | Inr (areas', syms', errs', final) \<Rightarrow>
               Inr \<lparr>out_data = final,
                    out_length = sint (word_of_nat (length final) :: 32 word),
                    diagnostics = errs',
                    symbol_table = syms',
                    merged_areas = areas'\<rparr>)))"

section \<open>Vocabulary of the properties\<close>

text \<open>Two names differ only in letter case when they fold to the same string.\<close>

definition fold_name :: "string \<Rightarrow> string" where
  "fold_name n = map tolower n"

text \<open>The definitions of a name among a list of symbols, in order.\<close>

definition definitions_of :: "string \<Rightarrow> symbol list \<Rightarrow> symbol list" where
  "definitions_of n syms = filter (\<lambda>s. fold_name (name s) = fold_name n) syms"

text \<open>The diagnostic reporting a symbol as a duplicate, and those among a list that
  report a given name.\<close>

definition duplicate_report :: "'m \<Rightarrow> symbol \<Rightarrow> 'm error" where
  "duplicate_report smap s = Error ERROR_DUPLICATE_SYMBOL smap (defined_address s) (Some (name s))"

definition duplicate_reports :: "string \<Rightarrow> 'm error list \<Rightarrow> 'm error list" where
  "duplicate_reports n errs =
     filter (\<lambda>e. case e of Error c smap addr arg \<Rightarrow>
                   c = ERROR_DUPLICATE_SYMBOL \<and>
                   (case arg of Some m \<Rightarrow> fold_name m = fold_name n | None \<Rightarrow> False)) errs"

text \<open>
  Little-endian patching as the properties state it: the \<open>n\<close> bytes of the buffer
  from offset \<open>a\<close> are each combined by OR with the corresponding byte of \<open>v\<close>, lowest
  byte first; every other byte is left as it is.
\<close>

definition patch_le :: "u8 list \<Rightarrow> nat \<Rightarrow> nat \<Rightarrow> u64 \<Rightarrow> u8 list" where
  "patch_le d a n v =
     map (\<lambda>k. if a \<le> k \<and> k < a + n then d ! k OR ucast (drop_bit (8 * (k - a)) v) else d ! k)
       [0..<length d]"

text \<open>A late immediate with its instruction address and base address made absolute.\<close>

definition absolute_addresses :: "u64 \<Rightarrow> 'e late_immediate \<Rightarrow> 'e late_immediate" where
  "absolute_addresses fa imm =
     imm\<lparr>instruction_address := instruction_address imm + fa,
         base_address := base_address imm + fa\<rparr>"

text \<open>
  The entries of the relocation table as the properties state them: for the late
  immediates of an area with final address \<open>fa\<close>, in order, one little-endian 2-byte
  entry \<open>offset + fa\<close> for each immediate of absolute kind whose patch offset differs
  from its base address.
\<close>

definition relocation_entries :: "u64 \<Rightarrow> 'e late_immediate list \<Rightarrow> u8 list" where
  "relocation_entries fa imms =
     concat (map (\<lambda>imm. bytes_of_u16 (ucast (address imm + fa)))
       (filter (\<lambda>imm. imm_type imm = IMM_TYPE_ABSOLUTE \<and> address imm \<noteq> base_address imm) imms))"

text \<open>A late immediate fits a buffer when the \<open>width div 8\<close> bytes at its patch offset
  lie inside it.\<close>

definition fits :: "'e late_immediate \<Rightarrow> u8 list \<Rightarrow> bool" where
  "fits imm d = (unat (address imm) + width imm div 8 \<le> length d)"

text \<open>
  Modelled from the spec: the expression evaluator is missing from the sources
  (\<open>evaluate(expression, symbolTable) -> (value, errorKind?, failingName?)\<close>). The
  theorems below hold for every evaluator. To run the linker on concrete inputs, this
  evaluator covers three shapes of expression: a number, a reference to one symbol
  (looked up without regard to letter case) and a malformed expression.
\<close>

datatype expr = Number u64 | Reference string | Malformed

fun evaluate_sample :: "expr evaluator" where
  "evaluate_sample (Number v) syms = (v, EXPRESSION_SUCCESS, [])"
| "evaluate_sample (Reference n) syms =
     (case find_symbol syms n of
        Some s \<Rightarrow> (sym_value s, EXPRESSION_SUCCESS, [])
      | None \<Rightarrow> (0, EXPRESSION_BAD_SYMBOL, n))"
| "evaluate_sample Malformed syms = (0, EXPRESSION_BAD_SYNTAX, [])"

section \<open>Concrete inputs\<close>

text \<open>Symbols and areas on which the linker is run below: \<open>Foo\<close>, and \<open>bar\<close>
  defined twice.\<close>

definition ex_foo :: symbol where
  "ex_foo = \<lparr>sym_type = SYMBOL_LABEL, name = ''Foo'', sym_value = 0x1234, defined_address = 4,
     exported = 0\<rparr>"

definition ex_bar1 :: symbol where
  "ex_bar1 = \<lparr>sym_type = SYMBOL_LABEL, name = ''bar'', sym_value = 1, defined_address = 1,
     exported = 0\<rparr>"

definition ex_bar2 :: symbol where
  "ex_bar2 = \<lparr>sym_type = SYMBOL_LABEL, name = ''bar'', sym_value = 2, defined_address = 7,
     exported = 0\<rparr>"

text \<open>An area with symbols only; its source map is stood for by a number.\<close>

definition ex_area :: "string \<Rightarrow> symbol list \<Rightarrow> (expr, nat) area" where
  "ex_area n syms = \<lparr>area_name = n, late_immediates = [], symbols = syms, source_map = length n,
     data = [], final_address = 0\<rparr>"

text \<open>Late immediates, and an area of code with three of them: a reference to
  \<open>FOO\<close>, a reference to a symbol that nobody defines, and a malformed expression.\<close>

definition ex_imm ::
  "immediate_type \<Rightarrow> nat \<Rightarrow> u64 \<Rightarrow> u64 \<Rightarrow> u64 \<Rightarrow> expr \<Rightarrow> expr late_immediate" where
  "ex_imm t w ia ba a e =
     \<lparr>imm_type = t, width = w, instruction_address = ia, base_address = ba, address = a,
      expression = e\<rparr>"

definition ex_code :: "(expr, nat) area" where
  "ex_code =
     \<lparr>area_name = ''CODE'',
      late_immediates =
        [ex_imm IMM_TYPE_ABSOLUTE 16 0 0 1 (Reference ''FOO''),
         ex_imm IMM_TYPE_ABSOLUTE 16 3 3 4 (Reference ''nowhere''),
         ex_imm IMM_TYPE_ABSOLUTE 8 6 6 7 Malformed],
      symbols = [ex_foo], source_map = 4,
      data = [0xC3, 0, 0, 0xCD, 0, 0, 0x3E, 0],
      final_address = 0x100\<rparr>"

text \<open>Areas for whole runs of the linker: 256 bytes of padding; a program with a relative
  and an absolute late immediate; the relocation table as \<^verbatim>\<open>link_objects\<close> creates it;
  data with a 32-bit reference; and the settings with an empty list of diagnostics.\<close>

definition ex_boot :: "(expr, nat) area" where
  "ex_boot = \<lparr>area_name = ''BOOT'', late_immediates = [], symbols = [], source_map = 1,
     data = replicate 256 0, final_address = 0\<rparr>"

definition ex_prog :: "(expr, nat) area" where
  "ex_prog =
     \<lparr>area_name = ''PROG'',
      late_immediates =
        [ex_imm IMM_TYPE_RELATIVE 8 0 2 1 (Number 0x104),
         ex_imm IMM_TYPE_ABSOLUTE 16 3 3 4 (Reference ''foo'')],
      symbols = [ex_foo], source_map = 2,
      data = [0x18, 0, 0, 0xCD, 0, 0],
      final_address = 0\<rparr>"

definition ex_table :: "(expr, nat) area" where
  "ex_table =
     \<lparr>area_name = ''__scas_relocation_table'', late_immediates = [],
      symbols = [\<lparr>sym_type = SYMBOL_LABEL, name = ''__scas_relocation_table'', sym_value = 0,
                  defined_address = 0, exported = 0\<rparr>],
      source_map = 3, data = [], final_address = 0\<rparr>"

definition ex_data :: "(expr, nat) area" where
  "ex_data =
     \<lparr>area_name = ''DATA'',
      late_immediates = [ex_imm IMM_TYPE_ABSOLUTE 32 0 1 0 (Reference ''foo'')],
      symbols = [], source_map = 4, data = [0, 0, 0, 0], final_address = 0\<rparr>"

definition ex_settings :: "bool \<Rightarrow> nat linker_settings" where
  "ex_settings relocation = \<lparr>automatic_relocation = relocation, errors = []\<rparr>"

section \<open>Properties of symbol lookup and gathering\<close>

lemma strcasecmp_eq_0: "strcasecmp a b = 0 \<longleftrightarrow> fold_name a = fold_name b"
  by (induction a b rule: strcasecmp.induct) (auto simp: fold_name_def)

lemma find_symbol_None_iff:
  "find_symbol syms n = None \<longleftrightarrow> (\<forall>s \<in> set syms. fold_name (name s) \<noteq> fold_name n)"
  by (induction syms) (auto simp: strcasecmp_eq_0)

lemma find_symbol_SomeD:
  "find_symbol syms n = Some s \<Longrightarrow> s \<in> set syms \<and> fold_name (name s) = fold_name n"
  by (induction syms) (auto simp: strcasecmp_eq_0 split: if_splits)

lemma find_symbol_distinct:
  "distinct (map (\<lambda>s. fold_name (name s)) syms) \<Longrightarrow> s \<in> set syms \<Longrightarrow>
   fold_name (name s) = fold_name n \<Longrightarrow> find_symbol syms n = Some s"
  by (induction syms) (auto simp: strcasecmp_eq_0 image_iff)

lemma find_symbol_append:
  "find_symbol (xs @ ys) n = (case find_symbol xs n of Some s \<Rightarrow> Some s | None \<Rightarrow> find_symbol ys n)"
  by (induction xs) auto

lemma find_symbol_cong:
  "fold_name n = fold_name n' \<Longrightarrow> find_symbol syms n = find_symbol syms n'"
  by (induction syms) (auto simp: strcasecmp_eq_0)

lemma gather_loop_distinct:
  "distinct (map (\<lambda>s. fold_name (name s)) syms) \<Longrightarrow>
   distinct (map (\<lambda>s. fold_name (name s)) (fst (gather_loop smap xs (syms, errs))))"
proof (induction xs arbitrary: syms errs)
  case Nil
  then show ?case by simp
next
  case (Cons x xs)
  show ?case
  proof (cases "find_symbol syms (name x) = None")
    case True
    then have "fold_name (name x) \<notin> set (map (\<lambda>s. fold_name (name s)) syms)"
      by (auto simp: find_symbol_None_iff)
    with Cons.prems have "distinct (map (\<lambda>s. fold_name (name s)) (list_add syms x))"
      by (simp add: list_add_def)
    from Cons.IH [OF this] True show ?thesis by simp
  next
    case False
    with Cons.IH [OF Cons.prems] show ?thesis by simp
  qed
qed

lemma gather_loop_find:
  "find_symbol (fst (gather_loop smap xs (syms, errs))) n = find_symbol (syms @ xs) n"
proof (induction xs arbitrary: syms errs)
  case Nil
  then show ?case by simp
next
  case (Cons x xs)
  show ?case
  proof (cases "find_symbol syms (name x) = None")
    case True
    with Cons.IH [of "list_add syms x" errs] show ?thesis
      by (simp add: list_add_def)
  next
    case False
    then obtain s where s: "find_symbol syms (name x) = Some s" by auto
    have "find_symbol (syms @ x # xs) n = find_symbol (syms @ xs) n"
    proof (cases "fold_name (name x) = fold_name n")
      case True
      then have "find_symbol syms n = Some s"
        using s find_symbol_cong [of "name x" n syms] by simp
      then show ?thesis by (simp add: find_symbol_append)
    next
      case False
      then show ?thesis
        by (simp add: find_symbol_append strcasecmp_eq_0 split: option.splits)
    qed
    with Cons.IH [of syms] False show ?thesis by simp
  qed
qed


lemma duplicate_reports_Cons:
  "duplicate_reports n (duplicate_report smap s # errs) =
     (if fold_name (name s) = fold_name n then duplicate_report smap s # duplicate_reports n errs
      else duplicate_reports n errs)"
  by (simp add: duplicate_reports_def duplicate_report_def)

lemma gather_loop_reports:
  "\<exists>new. snd (gather_loop smap xs (syms, errs)) = errs @ new \<and>
     (\<forall>n. length (duplicate_reports n new) +
            length (definitions_of n (fst (gather_loop smap xs (syms, errs)))) =
          length (definitions_of n syms) + length (definitions_of n xs)) \<and>
     set new \<subseteq> duplicate_report smap ` set xs"
proof (induction xs arbitrary: syms errs)
  case Nil
  show ?case by (simp add: duplicate_reports_def definitions_of_def)
next
  case (Cons x xs)
  show ?case
  proof (cases "find_symbol syms (name x) = None")
    case True
    from Cons.IH [of "list_add syms x" errs] obtain new where new:
      "snd (gather_loop smap xs (list_add syms x, errs)) = errs @ new"
      "\<And>n. length (duplicate_reports n new) +
            length (definitions_of n (fst (gather_loop smap xs (list_add syms x, errs)))) =
          length (definitions_of n (list_add syms x)) + length (definitions_of n xs)"
      "set new \<subseteq> duplicate_report smap ` set xs"
      by blast
    have "length (definitions_of n (list_add syms x)) + length (definitions_of n xs) =
          length (definitions_of n syms) + length (definitions_of n (x # xs))" for n
      by (simp add: definitions_of_def list_add_def)
    with new True show ?thesis
      by (intro exI [of _ new]) auto
  next
    case False
    let ?e = "duplicate_report smap x"
    from Cons.IH [of syms "errs @ [?e]"] obtain new where new:
      "snd (gather_loop smap xs (syms, errs @ [?e])) = (errs @ [?e]) @ new"
      "\<And>n. length (duplicate_reports n new) +
            length (definitions_of n (fst (gather_loop smap xs (syms, errs @ [?e])))) =
          length (definitions_of n syms) + length (definitions_of n xs)"
      "set new \<subseteq> duplicate_report smap ` set xs"
      by blast
    have step: "gather_loop smap (x # xs) (syms, errs) = gather_loop smap xs (syms, errs @ [?e])"
      using False by (simp add: add_error_from_map_def duplicate_report_def)
    have "length (duplicate_reports n (?e # new)) +
            length (definitions_of n (fst (gather_loop smap xs (syms, errs @ [?e])))) =
          length (definitions_of n syms) + length (definitions_of n (x # xs))" for n
      using new(2) [of n] by (simp add: duplicate_reports_Cons definitions_of_def)
    with new(1,3) show ?thesis
      unfolding step by (intro exI [of _ "?e # new"]) auto
  qed
qed


lemma gather_areas_distinct:
  "distinct (map (\<lambda>s. fold_name (name s)) syms) \<Longrightarrow>
   distinct (map (\<lambda>s. fold_name (name s)) (fst (gather_areas areas (syms, errs))))"
proof (induction areas arbitrary: syms errs)
  case Nil
  then show ?case by simp
next
  case (Cons a areas)
  obtain syms1 errs1 where g: "gather_loop (source_map a) (symbols a) (syms, errs) = (syms1, errs1)"
    by (cases "gather_loop (source_map a) (symbols a) (syms, errs)")
  have "distinct (map (\<lambda>s. fold_name (name s)) syms1)"
    using gather_loop_distinct [OF Cons.prems, of "source_map a" "symbols a" errs] g by simp
  from Cons.IH [OF this, of errs1] g show ?case
    by (simp add: gather_symbols_def)
qed

lemma gather_areas_find:
  "find_symbol (fst (gather_areas areas (syms, errs))) n =
   find_symbol (syms @ concat (map symbols areas)) n"
proof (induction areas arbitrary: syms errs)
  case Nil
  then show ?case by simp
next
  case (Cons a areas)
  obtain syms1 errs1 where g: "gather_loop (source_map a) (symbols a) (syms, errs) = (syms1, errs1)"
    by (cases "gather_loop (source_map a) (symbols a) (syms, errs)")
  have "find_symbol syms1 m = find_symbol (syms @ symbols a) m" for m
    using gather_loop_find [of "source_map a" "symbols a" syms errs m] g by simp
  then have "find_symbol (syms1 @ concat (map symbols areas)) n =
             find_symbol ((syms @ symbols a) @ concat (map symbols areas)) n"
    by (simp only: find_symbol_append)
  with Cons.IH [of syms1 errs1] g show ?case
    by (simp add: gather_symbols_def)
qed

lemma gather_areas_reports:
  "\<exists>new. snd (gather_areas areas (syms, errs)) = errs @ new \<and>
     (\<forall>n. length (duplicate_reports n new) +
            length (definitions_of n (fst (gather_areas areas (syms, errs)))) =
          length (definitions_of n syms) + length (definitions_of n (concat (map symbols areas)))) \<and>
     set new \<subseteq> (\<Union>a \<in> set areas. duplicate_report (source_map a) ` set (symbols a))"
proof (induction areas arbitrary: syms errs)
  case Nil
  show ?case by (simp add: duplicate_reports_def definitions_of_def)
next
  case (Cons a areas)
  obtain syms1 errs1 where g: "gather_loop (source_map a) (symbols a) (syms, errs) = (syms1, errs1)"
    by (cases "gather_loop (source_map a) (symbols a) (syms, errs)")
  from gather_loop_reports [of "source_map a" "symbols a" syms errs] g
  obtain new1 where new1: "errs1 = errs @ new1"
    "\<And>n. length (duplicate_reports n new1) + length (definitions_of n syms1) =
          length (definitions_of n syms) + length (definitions_of n (symbols a))"
    "set new1 \<subseteq> duplicate_report (source_map a) ` set (symbols a)"
    by auto
  from Cons.IH [of syms1 errs1]
  obtain new2 where new2: "snd (gather_areas areas (syms1, errs1)) = errs1 @ new2"
    "\<And>n. length (duplicate_reports n new2) +
            length (definitions_of n (fst (gather_areas areas (syms1, errs1)))) =
          length (definitions_of n syms1) + length (definitions_of n (concat (map symbols areas)))"
    "set new2 \<subseteq> (\<Union>a \<in> set areas. duplicate_report (source_map a) ` set (symbols a))"
    by blast
  have step: "gather_areas (a # areas) (syms, errs) = gather_areas areas (syms1, errs1)"
    using g by (simp add: gather_symbols_def)
  have "length (duplicate_reports n (new1 @ new2)) +
            length (definitions_of n (fst (gather_areas areas (syms1, errs1)))) =
          length (definitions_of n syms) +
          length (definitions_of n (concat (map symbols (a # areas))))" for n
    using new1(2) [of n] new2(2) [of n]
    by (simp add: duplicate_reports_def definitions_of_def)
  moreover have "snd (gather_areas areas (syms1, errs1)) = errs @ new1 @ new2"
    using new1(1) new2(1) by simp
  moreover have "set (new1 @ new2) \<subseteq>
      (\<Union>a \<in> set (a # areas). duplicate_report (source_map a) ` set (symbols a))"
    using new1(3) new2(3) by auto
  ultimately show ?case
    unfolding step by (intro exI [of _ "new1 @ new2"]) blast
qed

lemma definitions_of_distinct:
  "distinct (map (\<lambda>s. fold_name (name s)) syms) \<Longrightarrow>
   length (definitions_of n syms) = (if find_symbol syms n = None then 0 else 1)"
proof (induction syms)
  case Nil
  then show ?case by (simp add: definitions_of_def)
next
  case (Cons s syms)
  show ?case
  proof (cases "fold_name (name s) = fold_name n")
    case True
    with Cons.prems have "\<forall>t \<in> set syms. fold_name (name t) \<noteq> fold_name n"
      by (auto simp: image_iff)
    then have "definitions_of n syms = []"
      by (simp add: definitions_of_def)
    with True show ?thesis
      by (simp add: definitions_of_def strcasecmp_eq_0)
  next
    case False
    with Cons show ?thesis
      by (simp add: definitions_of_def strcasecmp_eq_0)
  qed
qed

lemma definitions_of_empty_iff:
  "definitions_of n syms = [] \<longleftrightarrow> find_symbol syms n = None"
  by (auto simp: definitions_of_def find_symbol_None_iff filter_empty_conv)

text \<open>
  Claim C5. Gathering the symbols of all areas into an empty table: every name occurs at
  most once in the table (names compared without regard to letter case); a lookup in
  the table finds the first definition among all the areas' symbols, so the table
  retains the first-defined symbol with its value and a later definition is not
  inserted; the diagnostics added are duplicate-symbol diagnostics, each carrying the
  name and the defining address of a symbol of some area together with that area's
  source map, and for every name their number is the number of its definitions minus
  one: exactly one for a name defined twice.
\<close>

theorem gather_first_definition_wins:
  assumes "gather_areas areas ([], errs) = (tbl, errs')"
  shows "distinct (map (\<lambda>s. fold_name (name s)) tbl) \<and>
         (\<forall>n. find_symbol tbl n = find_symbol (concat (map symbols areas)) n) \<and>
         (\<forall>s \<in> set tbl. find_symbol (concat (map symbols areas)) (name s) = Some s) \<and>
         (\<exists>new. errs' = errs @ new \<and>
            (\<forall>n. length (duplicate_reports n new) =
                  length (definitions_of n (concat (map symbols areas))) - 1) \<and>
            set new \<subseteq> (\<Union>a \<in> set areas. duplicate_report (source_map a) ` set (symbols a)))"
proof -
  let ?all = "concat (map symbols areas)"
  have d: "distinct (map (\<lambda>s. fold_name (name s)) tbl)"
    using gather_areas_distinct [of "[]" areas errs] assms by simp
  have f: "find_symbol tbl n = find_symbol ?all n" for n
    using gather_areas_find [of areas "[]" errs n] assms by simp
  have first: "find_symbol ?all (name s) = Some s" if "s \<in> set tbl" for s
    using find_symbol_distinct [OF d that, of "name s"] f by simp
  from gather_areas_reports [of areas "[]" errs] assms obtain new where new:
    "errs' = errs @ new"
    "\<And>n. length (duplicate_reports n new) + length (definitions_of n tbl) =
          length (definitions_of n ?all)"
    "set new \<subseteq> (\<Union>a \<in> set areas. duplicate_report (source_map a) ` set (symbols a))"
    by (auto simp: definitions_of_def)
  have "length (duplicate_reports n new) = length (definitions_of n ?all) - 1" for n
  proof (cases "find_symbol ?all n = None")
    case True
    then have "definitions_of n ?all = []"
      by (simp add: definitions_of_empty_iff)
    with new(2) [of n] show ?thesis by simp
  next
    case False
    then have "length (definitions_of n tbl) = 1"
      using definitions_of_distinct [OF d, of n] f by simp
    with new(2) [of n] show ?thesis by simp
  qed
  with d f first new(1,3) show ?thesis by blast
qed

theorem gather_first_definition_wins_witness:
  "gather_areas [ex_area ''CODE'' [ex_foo, ex_bar1], ex_area ''DATA'' [ex_bar2]] ([], []) =
     ([ex_foo, ex_bar1], [duplicate_report 4 ex_bar2 :: nat error]) \<and>
   distinct (map (\<lambda>s. fold_name (name s)) [ex_foo, ex_bar1]) \<and>
   find_symbol (concat (map symbols [ex_area ''CODE'' [ex_foo, ex_bar1], ex_area ''DATA'' [ex_bar2]]))
     ''BAR'' = Some ex_bar1 \<and>
   find_symbol [ex_foo, ex_bar1] ''BAR'' = Some ex_bar1 \<and>
   length (duplicate_reports ''bar'' [duplicate_report 4 ex_bar2 :: nat error]) = 1"
proof -
  let ?areas = "[ex_area ''CODE'' [ex_foo, ex_bar1], ex_area ''DATA'' [ex_bar2 ]]"
  have g: "gather_areas ?areas ([], []) = ([ex_foo, ex_bar1], [duplicate_report 4 ex_bar2 :: nat error])"
    by (simp add: gather_symbols_def ex_area_def ex_foo_def ex_bar1_def ex_bar2_def tolower_def
        list_add_def add_error_from_map_def duplicate_report_def)
  have b: "find_symbol [ex_foo, ex_bar1] ''BAR'' = Some ex_bar1"
    by (simp add: ex_foo_def ex_bar1_def tolower_def)
  have r: "length (duplicate_reports ''bar'' [duplicate_report 4 ex_bar2 :: nat error]) = 1"
    by (simp add: duplicate_reports_def duplicate_report_def ex_bar2_def)
  from gather_first_definition_wins [OF g]
  have d: "distinct (map (\<lambda>s. fold_name (name s)) [ex_foo, ex_bar1])"
    and f: "find_symbol [ex_foo, ex_bar1] ''BAR'' = find_symbol (concat (map symbols ?areas)) ''BAR''"
    by blast+
  from g d f b r show ?thesis by simp
qed

text \<open>
  Claim C9. In the table built by gathering, a lookup with any name that differs from a
  stored symbol's name only in letter case returns that symbol, and a lookup returns
  \<^verbatim>\<open>NULL\<close> only when no stored name matches without regard to letter case.
\<close>

theorem find_symbol_case_insensitive:
  assumes "tbl = fst (gather_areas areas ([], errs))"
  shows "(\<forall>s \<in> set tbl. \<forall>n. fold_name n = fold_name (name s) \<longrightarrow> find_symbol tbl n = Some s) \<and>
         (\<forall>n. find_symbol tbl n = None \<longleftrightarrow> \<not> (\<exists>s \<in> set tbl. fold_name (name s) = fold_name n))"
proof -
  have d: "distinct (map (\<lambda>s. fold_name (name s)) tbl)"
    using gather_areas_distinct [of "[]" areas errs] assms by simp
  show ?thesis
    using find_symbol_distinct [OF d] by (auto simp: find_symbol_None_iff)
qed

theorem find_symbol_case_insensitive_witness:
  "[ex_foo, ex_bar1] = fst (gather_areas [ex_area ''CODE'' [ex_foo, ex_bar1]] ([], [] :: nat error list)) \<and>
   fold_name ''FOO'' = fold_name (name ex_foo) \<and>
   find_symbol [ex_foo, ex_bar1] ''FOO'' = Some ex_foo \<and>
   sym_value (the (find_symbol [ex_foo, ex_bar1] ''FOO'')) = 0x1234 \<and>
   find_symbol [ex_foo, ex_bar1] ''baz'' = None"
proof -
  have g: "[ex_foo, ex_bar1] = fst (gather_areas [ex_area ''CODE'' [ex_foo, ex_bar1]] ([], [] :: nat error list))"
    by (simp add: gather_symbols_def ex_area_def ex_foo_def ex_bar1_def tolower_def list_add_def)
  have n: "fold_name ''FOO'' = fold_name (name ex_foo)"
    by (simp add: fold_name_def ex_foo_def tolower_def)
  have m: "ex_foo \<in> set [ex_foo, ex_bar1]"
    by simp
  have z: "\<not> (\<exists>s \<in> set [ex_foo, ex_bar1]. fold_name (name s) = fold_name ''baz'')"
    by (simp add: fold_name_def ex_foo_def ex_bar1_def tolower_def)
  from find_symbol_case_insensitive [OF g]
  have "find_symbol [ex_foo, ex_bar1] ''FOO'' = Some ex_foo"
    and "find_symbol [ex_foo, ex_bar1] ''baz'' = None"
    using n m z by blast+
  moreover have "sym_value ex_foo = 0x1234"
    by (simp add: ex_foo_def)
  ultimately show ?thesis using g n by simp
qed

section \<open>Properties of the resolver\<close>

lemma push_bit_or_mask_step:
  "push_bit k (push_bit 1 m OR 1) OR mask k = push_bit (Suc k) m OR (mask (Suc k) :: u64)"
  by (rule bit_eqI) (auto simp: bit_simps less_Suc_eq)

lemma mask_loop_eq:
  "mask_loop shift m = push_bit (unat (shift - 1)) m OR mask (unat (shift - 1))"
proof (induction shift m rule: mask_loop.induct)
  case (1 shift m)
  define x where "x = shift - 1"
  show ?case
  proof (cases "x = 0")
    case True
    then show ?thesis by (subst mask_loop.simps) (simp add: x_def)
  next
    case False
    then have u: "unat x = Suc (unat (x - 1))"
      by (simp add: unat_minus_one unat_gt_0)
    have "mask_loop shift m = mask_loop x (push_bit 1 m OR 1)"
      using False by (subst mask_loop.simps) (simp add: x_def)
    also have "\<dots> = push_bit (unat (x - 1)) (push_bit 1 m OR 1) OR mask (unat (x - 1))"
      using "1.IH" False by (simp add: x_def)
    also have "\<dots> = push_bit (unat x) m OR mask (unat x)"
      unfolding u by (rule push_bit_or_mask_step)
    finally show ?thesis by (simp add: x_def)
  qed
qed

lemma width_mask_eq:
  assumes "1 \<le> w" and "w \<le> 64"
  shows "width_mask w = mask w"
proof -
  obtain k where k: "w = Suc k"
    using assms by (cases w) auto
  have "(of_nat w :: 32 word) - 1 = of_nat k"
    by (simp add: k)
  moreover have "unat (of_nat k :: 32 word) = k"
    using assms k by (simp add: unat_of_nat)
  ultimately have "width_mask w = push_bit k 1 OR (mask k :: u64)"
    by (simp only: width_mask_def mask_loop_eq)
  also have "\<dots> = mask (Suc k)"
    by (rule bit_eqI) (auto simp: bit_simps less_Suc_eq)
  finally show ?thesis by (simp only: k)
qed

lemma push_bit_or_mask_full:
  "64 \<le> k \<Longrightarrow> push_bit k m OR mask k = (- 1 :: u64)"
  by (rule bit_eqI) (auto simp: bit_simps)

lemma width_mask_0: "width_mask 0 = - 1"
proof -
  define k where "k = unat ((of_nat 0 :: 32 word) - 1)"
  have "k = 2 ^ 32 - 1"
    by (simp add: k_def unsigned_minus_1_eq_mask mask_eq_exp_minus_1)
  then have "64 \<le> k"
    by simp
  then have "push_bit k 1 OR mask k = (- 1 :: u64)"
    by (rule push_bit_or_mask_full)
  then show ?thesis
    by (simp only: width_mask_def mask_loop_eq k_def)
qed

lemma width_mask_le_64:
  "w \<le> 64 \<Longrightarrow> width_mask w = (if w = 0 then - 1 else mask w)"
  by (simp add: width_mask_0 width_mask_eq)

lemma ucast_and_255: "(ucast (v AND 0xFF :: u64) :: u8) = ucast v"
proof -
  have e: "(0xFF :: u64) = mask 8"
    by (simp add: mask_eq_exp_minus_1)
  show ?thesis
    unfolding e by (rule bit_eqI) (auto simp: bit_simps)
qed

lemma write_loop_eq:
  "unat addr + n \<le> length d \<Longrightarrow> j \<le> n \<Longrightarrow>
   write_loop d addr v n j =
     Inr (map (\<lambda>k. if unat addr + j \<le> k \<and> k < unat addr + n
                     then d ! k OR ucast (drop_bit (8 * (k - (unat addr + j))) v) else d ! k)
            [0..<length d])"
proof (induction d addr v n j rule: write_loop.induct)
  case (1 d addr v n j)
  show ?case
  proof (cases "j < n")
    case False
    with "1.prems" have "j = n" by simp
    from False have "write_loop d addr v n j = Inr d"
      by (subst write_loop.simps) simp
    moreover have "map (\<lambda>k. if unat addr + j \<le> k \<and> k < unat addr + n
                     then d ! k OR ucast (drop_bit (8 * (k - (unat addr + j))) v) else d ! k)
            [0..<length d] = d"
      using \<open>j = n\<close> by (intro nth_equalityI) auto
    ultimately show ?thesis by simp
  next
    case True
    define i where "i = unat addr + j"
    define d1 where "d1 = d[i := d ! i OR ucast (v AND 0xFF)]"
    have i: "i < length d"
      using True "1.prems" by (simp add: i_def)
    have step: "write_loop d addr v n j = write_loop d1 addr (drop_bit 8 v) n (Suc j)"
      using True i by (subst write_loop.simps) (simp add: i_def d1_def Let_def)
    have len: "length d1 = length d"
      by (simp add: d1_def)
    have IH: "write_loop d1 addr (drop_bit 8 v) n (Suc j) =
        Inr (map (\<lambda>k. if unat addr + Suc j \<le> k \<and> k < unat addr + n
                     then d1 ! k OR ucast (drop_bit (8 * (k - (unat addr + Suc j))) (drop_bit 8 v))
                     else d1 ! k) [0..<length d1])"
      using "1.IH" [OF True refl, folded i_def, OF i, folded d1_def] "1.prems" True len by simp
    have "map (\<lambda>k. if unat addr + Suc j \<le> k \<and> k < unat addr + n
                     then d1 ! k OR ucast (drop_bit (8 * (k - (unat addr + Suc j))) (drop_bit 8 v))
                     else d1 ! k) [0..<length d1] =
          map (\<lambda>k. if unat addr + j \<le> k \<and> k < unat addr + n
                     then d ! k OR ucast (drop_bit (8 * (k - (unat addr + j))) v) else d ! k)
            [0..<length d]"
    proof (intro nth_equalityI)
      show "length (map (\<lambda>k. if unat addr + Suc j \<le> k \<and> k < unat addr + n
                     then d1 ! k OR ucast (drop_bit (8 * (k - (unat addr + Suc j))) (drop_bit 8 v))
                     else d1 ! k) [0..<length d1]) =
            length (map (\<lambda>k. if unat addr + j \<le> k \<and> k < unat addr + n
                     then d ! k OR ucast (drop_bit (8 * (k - (unat addr + j))) v) else d ! k)
            [0..<length d])"
        by (simp add: len)
    next
      fix k
      assume "k < length (map (\<lambda>k. if unat addr + Suc j \<le> k \<and> k < unat addr + n
                     then d1 ! k OR ucast (drop_bit (8 * (k - (unat addr + Suc j))) (drop_bit 8 v))
                     else d1 ! k) [0..<length d1])"
      then have k: "k < length d"
        by (simp add: len)
      consider "k = i" | "k < i" | "i < k"
        by linarith
      then show "map (\<lambda>k. if unat addr + Suc j \<le> k \<and> k < unat addr + n
                     then d1 ! k OR ucast (drop_bit (8 * (k - (unat addr + Suc j))) (drop_bit 8 v))
                     else d1 ! k) [0..<length d1] ! k =
            map (\<lambda>k. if unat addr + j \<le> k \<and> k < unat addr + n
                     then d ! k OR ucast (drop_bit (8 * (k - (unat addr + j))) v) else d ! k)
            [0..<length d] ! k"
      proof cases
        case 1
        then show ?thesis
          using k True by (simp add: len d1_def i_def ucast_and_255)
      next
        case 2
        then show ?thesis
          using k by (simp add: len d1_def i_def)
      next
        case 3
        then have "8 * (k - Suc (unat addr + j)) + 8 = 8 * (k - (unat addr + j))"
          by (simp add: i_def)
        with 3 show ?thesis
          using k by (simp add: len d1_def i_def drop_bit_drop_bit)
      qed
    qed
    with step IH show ?thesis by simp
  qed
qed

lemma write_loop_patch:
  "unat addr + n \<le> length d \<Longrightarrow> write_loop d addr v n 0 = Inr (patch_le d (unat addr) n v)"
  using write_loop_eq [of addr n d 0 v] by (simp add: patch_le_def)

lemma patch_le_take_bit:
  assumes "8 * n \<le> w"
  shows "patch_le d a n (v AND mask w) = patch_le d a n (take_bit (8 * n) v)"
proof -
  have "(ucast (drop_bit (8 * (k - a)) (v AND mask w)) :: u8) =
        ucast (drop_bit (8 * (k - a)) (take_bit (8 * n) v))" if k: "a \<le> k" "k < a + n" for k
  proof (rule bit_eqI)
    fix j
    assume "possible_bit TYPE(u8) j"
    then have j: "j < 8" by simp
    from k j have 1: "8 * (k - a) + j < 8 * n" by simp
    with assms have 2: "8 * (k - a) + j < w" by simp
    from 1 2 j show "bit (ucast (drop_bit (8 * (k - a)) (v AND mask w)) :: u8) j =
        bit (ucast (drop_bit (8 * (k - a)) (take_bit (8 * n) v)) :: u8) j"
      by (auto simp: bit_simps dest: bit_imp_le_length)
  qed
  then show ?thesis
    unfolding patch_le_def by (intro map_cong refl) simp
qed

lemma patch_le_0: "patch_le d a 0 v = d"
  unfolding patch_le_def by (intro nth_equalityI) auto

lemma and_mask_neq_iff:
  "(r AND mask w) \<noteq> r \<longleftrightarrow> (\<exists>i<64. w \<le> i \<and> bit r i)" for r :: u64
proof
  assume "(r AND mask w) \<noteq> r"
  then obtain i where "bit (r AND mask w) i \<noteq> bit r i"
    by (auto simp: bit_eq_iff)
  then have "bit r i" "w \<le> i"
    by (auto simp: bit_simps dest: bit_imp_le_length)
  moreover from \<open>bit r i\<close> have "i < 64"
    by (auto dest: bit_imp_le_length)
  ultimately show "\<exists>i<64. w \<le> i \<and> bit r i" by blast
next
  assume "\<exists>i<64. w \<le> i \<and> bit r i"
  then obtain i where "i < 64" "w \<le> i" "bit r i" by blast
  then have "bit (r AND mask w) i \<noteq> bit r i"
    by (simp add: bit_simps)
  then show "(r AND mask w) \<noteq> r" by auto
qed

lemma drop_bit_not_neq_0_iff:
  "drop_bit w (NOT r) \<noteq> 0 \<longleftrightarrow> (\<exists>i<64. w \<le> i \<and> \<not> bit r i)" for r :: u64
proof
  assume "drop_bit w (NOT r) \<noteq> 0"
  then obtain i where "bit (drop_bit w (NOT r)) i"
    by (auto simp: bit_eq_iff)
  then have "w + i < 64" "\<not> bit r (w + i)"
    by (auto simp: bit_simps)
  then show "\<exists>i<64. w \<le> i \<and> \<not> bit r i"
    by (intro exI [of _ "w + i"]) simp
next
  assume "\<exists>i<64. w \<le> i \<and> \<not> bit r i"
  then obtain i where i: "i < 64" "w \<le> i" "\<not> bit r i" by blast
  then have "bit (drop_bit w (NOT r)) (i - w)"
    by (simp add: bit_simps)
  then show "drop_bit w (NOT r) \<noteq> 0" by auto
qed

lemma truncated_unsigned_iff:
  "truncated_unsigned w r (mask w) \<longleftrightarrow>
     (\<exists>i<64. w \<le> i \<and> bit r i) \<and> (\<exists>i<64. w \<le> i \<and> \<not> bit r i)"
  by (simp add: truncated_unsigned_def and_mask_neq_iff drop_bit_not_neq_0_iff)

lemma and_not_mask_neq_iff:
  "(r AND NOT (mask w)) \<noteq> NOT (mask w) \<longleftrightarrow> (\<exists>i<64. w \<le> i \<and> \<not> bit r i)" for r :: u64
proof
  assume "(r AND NOT (mask w)) \<noteq> NOT (mask w)"
  then obtain i where "bit (r AND NOT (mask w)) i \<noteq> bit (NOT (mask w) :: u64) i"
    by (auto simp: bit_eq_iff)
  then have "i < 64 \<and> w \<le> i \<and> \<not> bit r i"
    by (auto simp: bit_simps)
  then show "\<exists>i<64. w \<le> i \<and> \<not> bit r i" by blast
next
  assume "\<exists>i<64. w \<le> i \<and> \<not> bit r i"
  then obtain i where i: "i < 64" "w \<le> i" "\<not> bit r i" by blast
  then have "bit (r AND NOT (mask w)) i \<noteq> bit (NOT (mask w) :: u64) i"
    by (simp add: bit_simps)
  then show "(r AND NOT (mask w)) \<noteq> NOT (mask w)" by auto
qed

lemma scast_push_bit_1:
  "w < 31 \<Longrightarrow> (scast (push_bit w (1 :: 32 word)) :: u64) = push_bit w 1"
  by (rule bit_eqI) (auto simp: bit_simps)

lemma and_push_bit_1_eq_0_iff:
  "w < 64 \<Longrightarrow> (r AND push_bit w 1) = 0 \<longleftrightarrow> \<not> bit r w" for r :: u64
proof
  assume w: "w < 64" and "(r AND push_bit w 1) = 0"
  then have "\<not> bit (r AND push_bit w 1) w" by simp
  with w show "\<not> bit r w" by (simp add: bit_simps)
next
  assume "w < 64" "\<not> bit r w"
  then show "(r AND push_bit w 1) = 0"
    by (intro bit_eqI) (auto simp: bit_simps)
qed

lemma truncated_signed_iff:
  assumes "1 \<le> w" and "w < 31"
  shows "truncated_signed w r (mask w) \<longleftrightarrow>
     (\<exists>i<64. w - 1 \<le> i \<and> bit r i) \<and> (\<exists>i<64. w \<le> i \<and> \<not> bit r i)"
proof -
  have m: "drop_bit 1 (mask w :: u64) = mask (w - 1)"
    using assms by (intro bit_eqI) (auto simp: bit_simps)
  have s: "(scast (push_bit w (1 :: 32 word)) :: u64) = push_bit w 1"
    using assms by (intro scast_push_bit_1) simp
  have a: "(r AND mask (w - 1)) \<noteq> r \<longleftrightarrow> (\<exists>i<64. w - 1 \<le> i \<and> bit r i)"
    by (rule and_mask_neq_iff)
  have b: "(r AND push_bit w 1) = 0 \<longleftrightarrow> \<not> bit r w"
    using assms by (intro and_push_bit_1_eq_0_iff) simp
  have c: "(r AND NOT (mask w)) \<noteq> NOT (mask w) \<longleftrightarrow> (\<exists>i<64. w \<le> i \<and> \<not> bit r i)"
    by (rule and_not_mask_neq_iff)
  have d: "\<exists>i<64. w \<le> i \<and> \<not> bit r i" if "\<not> bit r w"
    using that assms by (intro exI [of _ w]) simp
  show ?thesis
    unfolding truncated_signed_def m s a b c using d by blast
qed

lemma list_del_list_add: "list_del (list_add l x) (length (list_add l x) - Suc 0) = l"
  by (simp add: list_del_def list_add_def)

lemma write_loop_length:
  "write_loop d addr v n j = Inr d' \<Longrightarrow> length d' = length d"
proof (induction d addr v n j rule: write_loop.induct)
  case (1 d addr v n j)
  show ?case
  proof (cases "j < n \<and> unat addr + j < length d")
    case True
    with "1.prems" have "write_loop (d[unat addr + j := d ! (unat addr + j) OR ucast (v AND 0xFF)])
        addr (drop_bit 8 v) n (Suc j) = Inr d'"
      by (subst (asm) write_loop.simps) (simp add: Let_def)
    with "1.IH" [OF _ refl] True show ?thesis by simp
  next
    case False
    with "1.prems" show ?thesis
      by (subst (asm) write_loop.simps) (auto simp: Let_def split: if_splits)
  qed
qed

lemma resolve_immediate_bad_symbol:
  assumes "eval (expression imm) (syms @ [sym_pc (instruction_address imm + fa)]) =
             (r, EXPRESSION_BAD_SYMBOL, sname)"
  shows "resolve_immediate eval fa smap imm (syms, d, errs) =
           Inr (absolute_addresses fa imm, syms, d,
                errs @ [Error ERROR_UNKNOWN_SYMBOL smap (instruction_address imm + fa) (Some sname)])"
  using assms
  by (simp add: list_del_list_add absolute_addresses_def add_error_from_map_def Let_def
      list_add_def [symmetric])

lemma resolve_immediate_bad_syntax:
  assumes "eval (expression imm) (syms @ [sym_pc (instruction_address imm + fa)]) =
             (r, EXPRESSION_BAD_SYNTAX, sname)"
  shows "resolve_immediate eval fa smap imm (syms, d, errs) =
           Inr (absolute_addresses fa imm, syms, d,
                errs @ [Error ERROR_INVALID_SYNTAX smap (instruction_address imm + fa) None])"
  using assms
  by (simp add: list_del_list_add absolute_addresses_def add_error_from_map_def Let_def
      list_add_def [symmetric])

lemma resolve_immediate_success:
  assumes "eval (expression imm) (syms @ [sym_pc (instruction_address imm + fa)]) =
             (r, EXPRESSION_SUCCESS, sname)"
    and "unat (address imm) + width imm div 8 \<le> length d"
  shows "resolve_immediate eval fa smap imm (syms, d, errs) =
           Inr (absolute_addresses fa imm, syms,
                patch_le d (unat (address imm)) (width imm div 8)
                  ((if imm_type imm = IMM_TYPE_RELATIVE then r - (base_address imm + fa) else r)
                   AND width_mask (width imm)),
                if (if imm_type imm = IMM_TYPE_RELATIVE
                    then truncated_signed (width imm) (r - (base_address imm + fa))
                           (width_mask (width imm))
                    else truncated_unsigned (width imm) r (width_mask (width imm)))
                then errs @ [Error ERROR_VALUE_TRUNCATED smap (instruction_address imm + fa) None]
                else errs)"
  using assms
  by (simp add: list_del_list_add absolute_addresses_def add_error_from_map_def Let_def
      list_add_def [symmetric] write_loop_patch)

lemma resolve_immediate_frame:
  assumes "resolve_immediate eval fa smap imm (syms, d, errs) = Inr (imm', syms', d', errs')"
  shows "syms' = syms \<and> length d' = length d \<and> imm' = absolute_addresses fa imm"
proof -
  obtain r e sname where ev:
    "eval (expression imm) (list_add syms (sym_pc (instruction_address imm + fa))) = (r, e, sname)"
    by (cases "eval (expression imm) (list_add syms (sym_pc (instruction_address imm + fa)))")
  from assms ev show ?thesis
    by (auto simp: list_del_list_add absolute_addresses_def Let_def
        split: if_splits sum.splits dest: write_loop_length)
qed

section \<open>Properties of resolving a late immediate\<close>

lemma resolve_loop_frame:
  "resolve_loop eval fa smap imms (syms, d, errs) = Inr (imms', syms', d', errs') \<Longrightarrow>
   syms' = syms \<and> length d' = length d \<and> imms' = map (absolute_addresses fa) imms"
proof (induction imms arbitrary: d errs imms' d' errs')
  case Nil
  then show ?case by simp
next
  case (Cons imm imms)
  from Cons.prems obtain imm1 syms1 d1 errs1 where
    1: "resolve_immediate eval fa smap imm (syms, d, errs) = Inr (imm1, syms1, d1, errs1)"
    by (auto split: sum.splits)
  from resolve_immediate_frame [OF 1] have
    f: "syms1 = syms" "length d1 = length d" "imm1 = absolute_addresses fa imm"
    by simp_all
  from Cons.prems 1 f obtain imms2 where
    2: "resolve_loop eval fa smap imms (syms, d1, errs1) = Inr (imms2, syms', d', errs')"
    and i: "imms' = imm1 # imms2"
    by (auto split: sum.splits)
  from Cons.IH [OF 2] f i show ?case by simp
qed

lemma resolve_immediate_values_frame:
  assumes "resolve_immediate_values eval syms a errs = Inr (syms', a', errs')"
  shows "syms' = syms \<and> length (data a') = length (data a) \<and>
         final_address a' = final_address a \<and> area_name a' = area_name a \<and>
         late_immediates a' = map (absolute_addresses (final_address a)) (late_immediates a)"
proof -
  from assms obtain imms d where
    1: "resolve_loop eval (final_address a) (source_map a) (late_immediates a) (syms, data a, errs) =
          Inr (imms, syms', d, errs')"
    and a': "a' = a\<lparr>late_immediates := imms, data := d\<rparr>"
    by (auto simp: resolve_immediate_values_def split: sum.splits)
  from resolve_loop_frame [OF 1] a' show ?thesis by simp
qed

text \<open>
  Claim C8. Whenever \<^verbatim>\<open>resolve_immediate_values\<close> returns, the symbol list is the one
  it was called with: the transient symbol \<^verbatim>\<open>$\<close>, appended before each evaluation, is
  removed again after it, whether the evaluation succeeds, reports an unknown symbol or
  reports a syntax error. (A run that writes outside the area's buffer has no result.)
\<close>

theorem resolve_immediate_values_symbols:
  "resolve_immediate_values eval syms a errs = Inr (syms', a', errs') \<Longrightarrow> syms' = syms"
  by (simp add: resolve_immediate_values_frame)

text \<open>
  Claim C7. An absolute late immediate of width 1 to 64 that evaluates successfully and
  lies inside the buffer: the value-truncated diagnostic is added if and only if the
  result has a bit set at or above position \<open>width\<close> and its complement has one too;
  in both cases the result masked to \<open>width\<close> bits is combined by OR into the buffer,
  lowest byte first, over \<open>width div 8\<close> bytes.
\<close>

theorem absolute_truncation:
  assumes "imm_type imm = IMM_TYPE_ABSOLUTE"
    and "1 \<le> width imm" and "width imm \<le> 64"
    and "eval (expression imm) (syms @ [sym_pc (instruction_address imm + fa)]) =
           (result, EXPRESSION_SUCCESS, sname)"
    and "unat (address imm) + width imm div 8 \<le> length d"
  shows "resolve_immediate eval fa smap imm (syms, d, errs) =
           Inr (absolute_addresses fa imm, syms,
                patch_le d (unat (address imm)) (width imm div 8) (result AND mask (width imm)),
                if (\<exists>i<64. width imm \<le> i \<and> bit result i) \<and>
                   (\<exists>i<64. width imm \<le> i \<and> \<not> bit result i)
                then errs @ [Error ERROR_VALUE_TRUNCATED smap (instruction_address imm + fa) None]
                else errs)"
proof -
  have m: "width_mask (width imm) = mask (width imm)"
    using assms(2,3) by (rule width_mask_eq)
  show ?thesis
    unfolding resolve_immediate_success
        [where eval = eval and imm = imm and syms = syms and fa = fa, OF assms(4,5)]
      m truncated_unsigned_iff
    using assms(1) by simp
qed

text \<open>
  Claim C10. A late immediate of width at most 64 that evaluates successfully and lies
  inside the buffer: the bytes of the buffer outside the \<open>width div 8\<close> bytes at the
  patch offset are unchanged; the bytes written are those of the value cut to
  \<open>8 * (width div 8)\<close> bits, so the top \<open>width mod 8\<close> bits of the masked value take no
  part; and with a width below 8 the buffer is unchanged. Here \<open>r\<close> is the result, less
  the absolute base address for a relative immediate.
\<close>

theorem patch_width_div_8:
  assumes "width imm \<le> 64"
    and "eval (expression imm) (syms @ [sym_pc (instruction_address imm + fa)]) =
           (result, EXPRESSION_SUCCESS, sname)"
    and "unat (address imm) + width imm div 8 \<le> length d"
    and "r = (if imm_type imm = IMM_TYPE_RELATIVE then result - (base_address imm + fa) else result)"
    and "d' = patch_le d (unat (address imm)) (width imm div 8) (take_bit (8 * (width imm div 8)) r)"
  shows "(\<exists>errs'. resolve_immediate eval fa smap imm (syms, d, errs) =
            Inr (absolute_addresses fa imm, syms, d', errs')) \<and>
         length d' = length d \<and>
         (\<forall>k<length d. d' ! k =
            (if unat (address imm) \<le> k \<and> k < unat (address imm) + width imm div 8
             then d ! k OR ucast (drop_bit (8 * (k - unat (address imm))) (take_bit (8 * (width imm div 8)) r))
             else d ! k)) \<and>
         (width imm < 8 \<longrightarrow> d' = d)"
proof -
  have p: "patch_le d (unat (address imm)) (width imm div 8) (r AND width_mask (width imm)) = d'"
  proof (cases "width imm = 0")
    case True
    then show ?thesis
      by (simp add: assms(5) patch_le_0)
  next
    case False
    then have "width_mask (width imm) = mask (width imm)"
      using assms(1) by (intro width_mask_eq) simp_all
    moreover have "8 * (width imm div 8) \<le> width imm"
      by simp
    ultimately show ?thesis
      by (simp add: assms(5) patch_le_take_bit)
  qed
  have "\<exists>errs'. resolve_immediate eval fa smap imm (syms, d, errs) =
            Inr (absolute_addresses fa imm, syms, d', errs')"
    unfolding resolve_immediate_success
        [where eval = eval and imm = imm and syms = syms and fa = fa, OF assms(2,3)]
      assms(4) [symmetric] p by blast
  moreover have "length d' = length d"
    by (simp add: assms(5) patch_le_def)
  moreover have "\<forall>k<length d. d' ! k =
            (if unat (address imm) \<le> k \<and> k < unat (address imm) + width imm div 8
             then d ! k OR ucast (drop_bit (8 * (k - unat (address imm))) (take_bit (8 * (width imm div 8)) r))
             else d ! k)"
    by (simp add: assms(5) patch_le_def)
  moreover have "width imm < 8 \<longrightarrow> d' = d"
    by (simp add: assms(5) patch_le_0)
  ultimately show ?thesis by blast
qed

lemmas run_simps =
  ex_imm_def resolve_immediate_values_def Let_def list_add_def list_del_def sym_pc_def
  tolower_def add_error_from_map_def width_mask_eq truncated_unsigned_def truncated_signed_def
  write_loop_patch patch_le_def absolute_addresses_def mask_eq_exp_minus_1

lemma sint_range_bits:
  fixes r :: u64
  assumes "n < 64"
  shows "(- (2 ^ n) \<le> sint r \<and> sint r < 2 ^ n) \<longleftrightarrow> (\<forall>i<64. n \<le> i \<longrightarrow> bit r i = bit r n)"
proof -
  have "(- (2 ^ n) \<le> sint r \<and> sint r < 2 ^ n) \<longleftrightarrow> signed_take_bit n (sint r) = sint r"
    by (simp add: signed_take_bit_int_eq_self_iff)
  also have "\<dots> \<longleftrightarrow> (\<forall>i. bit (signed_take_bit n (sint r)) i = bit (sint r) i)"
    using bit_eq_iff [of "signed_take_bit n (sint r)" "sint r"] by simp
  also have "\<dots> \<longleftrightarrow> (\<forall>i. bit (sint r) (min n i) = bit (sint r) i)"
    by (simp add: bit_signed_take_bit_iff)
  also have "\<dots> \<longleftrightarrow> (\<forall>i<64. n \<le> i \<longrightarrow> bit r i = bit r n)"
  proof
    assume h: "\<forall>i. bit (sint r) (min n i) = bit (sint r) i"
    show "\<forall>i<64. n \<le> i \<longrightarrow> bit r i = bit r n"
    proof (intro allI impI)
      fix i assume "i < 64" "n \<le> i"
      with h [rule_format, of i] assms show "bit r i = bit r n"
        by (simp add: bit_sint_iff min_def)
    qed
  next
    assume h: "\<forall>i<64. n \<le> i \<longrightarrow> bit r i = bit r n"
    show "\<forall>i. bit (sint r) (min n i) = bit (sint r) i"
    proof
      fix i
      show "bit (sint r) (min n i) = bit (sint r) i"
      proof (cases "i < n")
        case True
        then show ?thesis by (simp add: min_def)
      next
        case False
        then have ni: "n \<le> i" by simp
        have 63: "bit r 63 = bit r n"
          using h [rule_format, of 63] assms by simp
        show ?thesis
        proof (cases "i < 64")
          case True
          with h [rule_format, of i] ni assms show ?thesis
            by (simp add: bit_sint_iff min_def)
        next
          case False
          then have "\<not> bit r i"
            by (auto dest: bit_imp_le_length)
          with False ni assms 63 show ?thesis
            by (simp add: bit_sint_iff min_def)
        qed
      qed
    qed
  qed
  finally show ?thesis .
qed

lemma sint_negative_iff: "sint r < 0 \<longleftrightarrow> bit r 63" for r :: u64
  using bit_last_iff [of r] by simp

lemma clear_above_iff:
  fixes r :: u64
  assumes "n < 64"
  shows "(\<forall>i<64. n \<le> i \<longrightarrow> \<not> bit r i) \<longleftrightarrow> 0 \<le> sint r \<and> sint r < 2 ^ n"
proof
  assume h: "\<forall>i<64. n \<le> i \<longrightarrow> \<not> bit r i"
  then have e: "\<forall>i<64. n \<le> i \<longrightarrow> bit r i = bit r n"
    using assms by blast
  have "- (2 ^ n) \<le> sint r \<and> sint r < 2 ^ n"
    by (rule iffD2 [OF sint_range_bits [OF assms] e])
  moreover from h [rule_format, of 63] assms have "\<not> sint r < 0"
    by (simp add: sint_negative_iff)
  ultimately show "0 \<le> sint r \<and> sint r < 2 ^ n" by linarith
next
  assume h: "0 \<le> sint r \<and> sint r < 2 ^ n"
  then have "- (2 ^ n) \<le> sint r \<and> sint r < 2 ^ n"
    using zero_less_power [of "2::int" n] by linarith
  then have e: "\<forall>i<64. n \<le> i \<longrightarrow> bit r i = bit r n"
    by (rule iffD1 [OF sint_range_bits [OF assms]])
  from h have "\<not> bit r 63"
    by (simp add: sint_negative_iff [symmetric])
  with e [rule_format, of 63] assms have n: "\<not> bit r n" by simp
  show "\<forall>i<64. n \<le> i \<longrightarrow> \<not> bit r i"
  proof (intro allI impI)
    fix i assume "i < 64" "n \<le> i"
    with e [rule_format, of i] n show "\<not> bit r i" by simp
  qed
qed

lemma set_above_iff:
  fixes r :: u64
  assumes "n < 64"
  shows "(\<forall>i<64. n \<le> i \<longrightarrow> bit r i) \<longleftrightarrow> - (2 ^ n) \<le> sint r \<and> sint r < 0"
proof
  assume h: "\<forall>i<64. n \<le> i \<longrightarrow> bit r i"
  then have e: "\<forall>i<64. n \<le> i \<longrightarrow> bit r i = bit r n"
    using assms by blast
  have "- (2 ^ n) \<le> sint r \<and> sint r < 2 ^ n"
    by (rule iffD2 [OF sint_range_bits [OF assms] e])
  moreover from h [rule_format, of 63] assms have "sint r < 0"
    by (simp add: sint_negative_iff)
  ultimately show "- (2 ^ n) \<le> sint r \<and> sint r < 0" by linarith
next
  assume h: "- (2 ^ n) \<le> sint r \<and> sint r < 0"
  then have "- (2 ^ n) \<le> sint r \<and> sint r < 2 ^ n"
    using zero_less_power [of "2::int" n] by linarith
  then have e: "\<forall>i<64. n \<le> i \<longrightarrow> bit r i = bit r n"
    by (rule iffD1 [OF sint_range_bits [OF assms]])
  from h have "bit r 63"
    by (simp add: sint_negative_iff)
  with e [rule_format, of 63] assms have n: "bit r n" by simp
  show "\<forall>i<64. n \<le> i \<longrightarrow> bit r i"
  proof (intro allI impI)
    fix i assume "i < 64" "n \<le> i"
    with e [rule_format, of i] n show "bit r i" by simp
  qed
qed

lemma truncated_signed_sint:
  assumes "1 \<le> w" and "w < 31"
  shows "truncated_signed w r (mask w) \<longleftrightarrow> sint r < - (2 ^ w) \<or> 2 ^ (w - 1) \<le> sint r"
proof -
  define p :: int where "p = 2 ^ (w - 1)"
  define q :: int where "q = 2 ^ w"
  have pos: "0 < p" "0 < q"
    by (simp_all add: p_def q_def)
  have "(\<forall>i<64. w - 1 \<le> i \<longrightarrow> \<not> bit r i) \<longleftrightarrow> 0 \<le> sint r \<and> sint r < p"
    unfolding p_def using assms by (intro clear_above_iff) simp
  then have a: "(\<exists>i<64. w - 1 \<le> i \<and> bit r i) \<longleftrightarrow> \<not> (0 \<le> sint r \<and> sint r < p)"
    by blast
  have "(\<forall>i<64. w \<le> i \<longrightarrow> bit r i) \<longleftrightarrow> - q \<le> sint r \<and> sint r < 0"
    unfolding q_def using assms by (intro set_above_iff) simp
  then have b: "(\<exists>i<64. w \<le> i \<and> \<not> bit r i) \<longleftrightarrow> \<not> (- q \<le> sint r \<and> sint r < 0)"
    by blast
  have "truncated_signed w r (mask w) \<longleftrightarrow> sint r < - q \<or> p \<le> sint r"
    unfolding truncated_signed_iff [OF assms] a b using pos by linarith
  then show ?thesis
    by (simp only: p_def q_def)
qed

lemma truncated_unsigned_sint:
  assumes "w < 64"
  shows "truncated_unsigned w r (mask w) \<longleftrightarrow> sint r < - (2 ^ w) \<or> 2 ^ w \<le> sint r"
proof -
  define q :: int where "q = 2 ^ w"
  have pos: "0 < q"
    by (simp add: q_def)
  have "(\<forall>i<64. w \<le> i \<longrightarrow> \<not> bit r i) \<longleftrightarrow> 0 \<le> sint r \<and> sint r < q"
    unfolding q_def using assms by (rule clear_above_iff)
  then have a: "(\<exists>i<64. w \<le> i \<and> bit r i) \<longleftrightarrow> \<not> (0 \<le> sint r \<and> sint r < q)"
    by blast
  have "(\<forall>i<64. w \<le> i \<longrightarrow> bit r i) \<longleftrightarrow> - q \<le> sint r \<and> sint r < 0"
    unfolding q_def using assms by (rule set_above_iff)
  then have b: "(\<exists>i<64. w \<le> i \<and> \<not> bit r i) \<longleftrightarrow> \<not> (- q \<le> sint r \<and> sint r < 0)"
    by blast
  have "truncated_unsigned w r (mask w) \<longleftrightarrow> sint r < - q \<or> q \<le> sint r"
    unfolding truncated_unsigned_iff a b using pos by linarith
  then show ?thesis
    by (simp only: q_def)
qed

lemma relative_truncation:
  assumes "imm_type imm = IMM_TYPE_RELATIVE"
    and "1 \<le> width imm" and "width imm < 31"
    and "eval (expression imm) (syms @ [sym_pc (instruction_address imm + fa)]) =
           (target, EXPRESSION_SUCCESS, sname)"
    and "unat (address imm) + width imm div 8 \<le> length d"
  shows "resolve_immediate eval fa smap imm (syms, d, errs) =
           Inr (absolute_addresses fa imm, syms,
                patch_le d (unat (address imm)) (width imm div 8)
                  ((target - (base_address imm + fa)) AND mask (width imm)),
                if sint (target - (base_address imm + fa)) < - (2 ^ width imm) \<or>
                   2 ^ (width imm - 1) \<le> sint (target - (base_address imm + fa))
                then errs @ [Error ERROR_VALUE_TRUNCATED smap (instruction_address imm + fa) None]
                else errs)"
proof -
  have m: "width_mask (width imm) = mask (width imm)"
    using assms(2,3) by (intro width_mask_eq) simp_all
  show ?thesis
    unfolding resolve_immediate_success
        [where eval = eval and imm = imm and syms = syms and fa = fa, OF assms(4,5)]
      m truncated_signed_sint [OF assms(2,3)]
    using assms(1) by simp
qed

text \<open>
  Claim C1, at an input where the code departs from it. An 8-bit relative immediate with
  absolute base address 200 whose expression evaluates to 0: the difference is \<open>-200\<close>,
  outside \<open>[-128, 127]\<close>, yet no diagnostic is added; the byte written is \<open>0x38\<close>.
  By \<open>relative_truncation\<close> the diagnostic is added exactly when the difference is
  outside \<open>[-256, 127]\<close>: the sign test of the code reads bit \<open>width\<close>, not bit
  \<open>width - 1\<close>.
\<close>

theorem relative_8bit_truncation_missed:
  "resolve_immediate evaluate_sample 0 (0::nat)
     (ex_imm IMM_TYPE_RELATIVE 8 199 200 0 (Number 0)) ([], [0], []) =
   Inr (ex_imm IMM_TYPE_RELATIVE 8 199 200 0 (Number 0), [], [0x38], []) \<and>
   sint (0 - 200 :: u64) = - 200"
  by (simp add: run_simps)

theorem absolute_truncation_witness:
  "resolve_immediate evaluate_sample 0x100 (0::nat)
     (ex_imm IMM_TYPE_ABSOLUTE 8 0 0 1 (Number 0x1FF)) ([], [0xC3, 0], []) =
   Inr (ex_imm IMM_TYPE_ABSOLUTE 8 0x100 0x100 1 (Number 0x1FF), [], [0xC3, 0xFF],
        [Error ERROR_VALUE_TRUNCATED 0 0x100 None]) \<and>
   resolve_immediate evaluate_sample 0x100 (0::nat)
     (ex_imm IMM_TYPE_ABSOLUTE 8 0 0 1 (Number (- 2))) ([], [0xC3, 0], []) =
   Inr (ex_imm IMM_TYPE_ABSOLUTE 8 0x100 0x100 1 (Number (- 2)), [], [0xC3, 0xFE], [])"
proof -
  let ?i = "ex_imm IMM_TYPE_ABSOLUTE 8 0 0 1 (Number 0x1FF)"
  let ?j = "ex_imm IMM_TYPE_ABSOLUTE 8 0 0 1 (Number (- 2))"
  have 1: "imm_type ?i = IMM_TYPE_ABSOLUTE" "1 \<le> width ?i" "width ?i \<le> 64"
    "evaluate_sample (expression ?i) ([] @ [sym_pc (instruction_address ?i + 0x100)]) =
       (0x1FF, EXPRESSION_SUCCESS, [])"
    "unat (address ?i) + width ?i div 8 \<le> length [0xC3, 0 :: u8]"
    by (simp_all add: ex_imm_def)
  have 2: "imm_type ?j = IMM_TYPE_ABSOLUTE" "1 \<le> width ?j" "width ?j \<le> 64"
    "evaluate_sample (expression ?j) ([] @ [sym_pc (instruction_address ?j + 0x100)]) =
       (- 2, EXPRESSION_SUCCESS, [])"
    "unat (address ?j) + width ?j div 8 \<le> length [0xC3, 0 :: u8]"
    by (simp_all add: ex_imm_def)
  have c1: "(\<exists>i<64. width ?i \<le> i \<and> bit (0x1FF :: u64) i) \<and>
            (\<exists>i<64. width ?i \<le> i \<and> \<not> bit (0x1FF :: u64) i)"
    unfolding truncated_unsigned_iff [symmetric]
    by (simp add: ex_imm_def truncated_unsigned_def mask_eq_exp_minus_1)
  have c2: "\<not> ((\<exists>i<64. width ?j \<le> i \<and> bit (- 2 :: u64) i) \<and>
            (\<exists>i<64. width ?j \<le> i \<and> \<not> bit (- 2 :: u64) i))"
    unfolding truncated_unsigned_iff [symmetric]
    by (simp add: ex_imm_def truncated_unsigned_def mask_eq_exp_minus_1)
  have p1: "patch_le [0xC3, 0] (unat (address ?i)) (width ?i div 8) (0x1FF AND mask (width ?i)) =
            [0xC3, 0xFF]"
    by (simp add: ex_imm_def patch_le_def mask_eq_exp_minus_1)
  have p2: "patch_le [0xC3, 0] (unat (address ?j)) (width ?j div 8) (- 2 AND mask (width ?j)) =
            [0xC3, 0xFE]"
    by (simp add: ex_imm_def patch_le_def mask_eq_exp_minus_1)
  have a1: "absolute_addresses 0x100 ?i = ex_imm IMM_TYPE_ABSOLUTE 8 0x100 0x100 1 (Number 0x1FF)"
    and a2: "absolute_addresses 0x100 ?j = ex_imm IMM_TYPE_ABSOLUTE 8 0x100 0x100 1 (Number (- 2))"
    by (simp_all add: ex_imm_def absolute_addresses_def)
  have i1: "instruction_address ?i + 0x100 = 0x100" and i2: "instruction_address ?j + 0x100 = 0x100"
    by (simp_all add: ex_imm_def)
  from absolute_truncation [where eval = evaluate_sample and smap = "0::nat" and errs = "[]",
      OF 1] c1
  have r1: "resolve_immediate evaluate_sample 0x100 (0::nat) ?i ([], [0xC3, 0], []) =
      Inr (ex_imm IMM_TYPE_ABSOLUTE 8 0x100 0x100 1 (Number 0x1FF), [], [0xC3, 0xFF],
        [Error ERROR_VALUE_TRUNCATED 0 0x100 None])"
    unfolding p1 a1 i1 by simp
  from absolute_truncation [where eval = evaluate_sample and smap = "0::nat" and errs = "[]",
      OF 2] c2
  have r2: "resolve_immediate evaluate_sample 0x100 (0::nat) ?j ([], [0xC3, 0], []) =
      Inr (ex_imm IMM_TYPE_ABSOLUTE 8 0x100 0x100 1 (Number (- 2)), [], [0xC3, 0xFE], [])"
    unfolding p2 a2 i2 by simp
  from r1 r2 show ?thesis by (rule conjI)
qed

theorem patch_width_div_8_witness:
  "(\<exists>errs'. resolve_immediate evaluate_sample 0 (0::nat)
       (ex_imm IMM_TYPE_ABSOLUTE 12 0 0 0 (Number 0xABC)) ([], [0, 0], []) =
     Inr (ex_imm IMM_TYPE_ABSOLUTE 12 0 0 0 (Number 0xABC), [], [0xBC, 0], errs')) \<and>
   (\<exists>errs'. resolve_immediate evaluate_sample 0 (0::nat)
       (ex_imm IMM_TYPE_ABSOLUTE 4 0 0 0 (Number 0xF)) ([], [0, 0], []) =
     Inr (ex_imm IMM_TYPE_ABSOLUTE 4 0 0 0 (Number 0xF), [], [0, 0], errs'))"
proof -
  let ?i = "ex_imm IMM_TYPE_ABSOLUTE 12 0 0 0 (Number 0xABC)"
  let ?j = "ex_imm IMM_TYPE_ABSOLUTE 4 0 0 0 (Number 0xF)"
  have 1: "width ?i \<le> 64"
    "evaluate_sample (expression ?i) ([] @ [sym_pc (instruction_address ?i + 0)]) =
       (0xABC, EXPRESSION_SUCCESS, [])"
    "unat (address ?i) + width ?i div 8 \<le> length [0, 0 :: u8]"
    "0xABC = (if imm_type ?i = IMM_TYPE_RELATIVE then 0xABC - (base_address ?i + 0) else 0xABC)"
    "[0xBC, 0] = patch_le [0, 0] (unat (address ?i)) (width ?i div 8)
                   (take_bit (8 * (width ?i div 8)) (0xABC :: u64))"
    by (simp_all add: ex_imm_def patch_le_def)
  have 2: "width ?j \<le> 64"
    "evaluate_sample (expression ?j) ([] @ [sym_pc (instruction_address ?j + 0)]) =
       (0xF, EXPRESSION_SUCCESS, [])"
    "unat (address ?j) + width ?j div 8 \<le> length [0, 0 :: u8]"
    "0xF = (if imm_type ?j = IMM_TYPE_RELATIVE then 0xF - (base_address ?j + 0) else 0xF)"
    "[0, 0] = patch_le [0, 0] (unat (address ?j)) (width ?j div 8)
                   (take_bit (8 * (width ?j div 8)) (0xF :: u64))"
    by (simp_all add: ex_imm_def patch_le_def)
  have a: "absolute_addresses 0 ?i = ?i" "absolute_addresses 0 ?j = ?j"
    by (simp_all add: ex_imm_def absolute_addresses_def)
  from patch_width_div_8 [where eval = evaluate_sample and smap = "0::nat" and errs = "[]", OF 1]
  have r1: "\<exists>errs'. resolve_immediate evaluate_sample 0 (0::nat) ?i ([], [0, 0], []) =
     Inr (?i, [], [0xBC, 0], errs')"
    unfolding a by blast
  from patch_width_div_8 [where eval = evaluate_sample and smap = "0::nat" and errs = "[]", OF 2]
  have r2: "\<exists>errs'. resolve_immediate evaluate_sample 0 (0::nat) ?j ([], [0, 0], []) =
     Inr (?j, [], [0, 0], errs')"
    unfolding a by blast
  from r1 r2 show ?thesis by (rule conjI)
qed

theorem resolve_immediate_values_symbols_witness:
  "\<exists>a'. resolve_immediate_values evaluate_sample [ex_foo] ex_code [] =
     Inr ([ex_foo], a',
          [Error ERROR_UNKNOWN_SYMBOL 4 0x103 (Some ''nowhere''),
           Error ERROR_INVALID_SYNTAX 4 0x106 None])"
proof -
  have "\<exists>syms' a'. resolve_immediate_values evaluate_sample [ex_foo] ex_code [] =
     Inr (syms', a',
          [Error ERROR_UNKNOWN_SYMBOL 4 0x103 (Some ''nowhere''),
           Error ERROR_INVALID_SYNTAX 4 0x106 None])"
    by (simp add: run_simps ex_code_def ex_foo_def)
  then obtain syms' a' where run:
    "resolve_immediate_values evaluate_sample [ex_foo] ex_code [] =
     Inr (syms', a',
          [Error ERROR_UNKNOWN_SYMBOL 4 0x103 (Some ''nowhere''),
           Error ERROR_INVALID_SYNTAX 4 0x106 None])"
    by blast
  from resolve_immediate_values_symbols [OF run] have "syms' = [ex_foo]" .
  with run show ?thesis by blast
qed

section \<open>Properties of placement and of the link driver\<close>

lemma auto_relocate_loop_eq:
  "auto_relocate_loop fa imms tbl = tbl\<lparr>data := data tbl @ relocation_entries fa imms\<rparr>"
proof (induction imms arbitrary: tbl)
  case Nil
  show ?case by (simp add: relocation_entries_def)
next
  case (Cons imm imms)
  show ?case
  proof (cases "imm_type imm")
    case IMM_TYPE_ABSOLUTE
    then show ?thesis
      by (cases "base_address imm = address imm")
        (auto simp: Cons.IH relocation_entries_def append_to_area_def)
  next
    case IMM_TYPE_RELATIVE
    then show ?thesis
      by (simp add: Cons.IH relocation_entries_def)
  qed
qed

lemma auto_relocate_area_eq:
  "auto_relocate_area a tbl =
     tbl\<lparr>data := data tbl @ relocation_entries (final_address a) (late_immediates a)\<rparr>"
  by (simp add: auto_relocate_area_def auto_relocate_loop_eq)

lemma place_area_length:
  "place_area settings rt i addr areas = Inr areas' \<Longrightarrow> length areas' = length areas"
  by (auto simp: place_area_def Let_def split: if_splits option.splits)

lemma place_area_nth:
  assumes "place_area settings rt i addr areas = Inr areas'"
    and "i < length areas" and "j < length areas"
  shows "areas' ! j =
     (if automatic_relocation settings \<and> rt = Some j then
        (if j = i
         then (areas ! j)\<lparr>final_address := addr, data := data (areas ! j) @ bytes_of_u16 0\<rparr>
         else (areas ! j)\<lparr>data := data (areas ! j) @
                 relocation_entries addr (late_immediates (areas ! i))\<rparr>)
      else if j = i then (areas ! j)\<lparr>final_address := addr\<rparr>
      else areas ! j)"
  using assms
  by (auto simp: place_area_def Let_def relocate_area_def append_to_area_def auto_relocate_area_eq
      nth_list_update split: if_splits option.splits)

lemma place_area_total:
  assumes "automatic_relocation settings \<longrightarrow> (\<exists>k<length areas. rt = Some k)"
  shows "\<exists>areas'. place_area settings rt i addr areas = Inr areas'"
  using assms by (auto simp: place_area_def Let_def)

lemma place_from_total:
  assumes "automatic_relocation settings \<longrightarrow> (\<exists>k<length areas. rt = Some k)"
  shows "\<exists>areas'. place_from settings rt i addr areas = Inr areas'"
  using assms
proof (induction settings rt i addr areas rule: place_from.induct)
  case (1 settings rt i addr areas)
  show ?case
  proof (cases "i < length areas")
    case False
    then show ?thesis by (subst place_from.simps) simp
  next
    case True
    from place_area_total [OF "1.prems"] obtain areas2 where
      2: "place_area settings rt i addr areas = Inr areas2" by blast
    have "automatic_relocation settings \<longrightarrow> (\<exists>k<length areas2. rt = Some k)"
      using "1.prems" place_area_length [OF 2] by simp
    from "1.IH" [OF True 2 this] True 2 show ?thesis
      by (subst place_from.simps) simp
  qed
qed

lemma place_from_frame:
  assumes "place_from settings rt i addr areas = Inr areas'"
  shows "length areas' = length areas \<and>
    (\<forall>j<length areas.
       late_immediates (areas' ! j) = late_immediates (areas ! j) \<and>
       area_name (areas' ! j) = area_name (areas ! j) \<and>
       symbols (areas' ! j) = symbols (areas ! j) \<and>
       source_map (areas' ! j) = source_map (areas ! j) \<and>
       length (data (areas ! j)) \<le> length (data (areas' ! j)) \<and>
       (\<not> (automatic_relocation settings \<and> rt = Some j) \<longrightarrow>
          data (areas' ! j) = data (areas ! j)))"
  using assms
proof (induction settings rt i addr areas rule: place_from.induct)
  case (1 settings rt i addr areas)
  show ?case
  proof (cases "i < length areas")
    case False
    with "1.prems" have "areas' = areas"
      by (subst (asm) place_from.simps) simp
    then show ?thesis by simp
  next
    case True
    with "1.prems" obtain areas2 where
      2: "place_area settings rt i addr areas = Inr areas2"
      and 3: "place_from settings rt (Suc i) (addr + data_length (areas2 ! i)) areas2 = Inr areas'"
      by (subst (asm) place_from.simps) (auto split: sum.splits)
    note len = place_area_length [OF 2]
    note IH = "1.IH" [OF True 2 3]
    have step: "late_immediates (areas2 ! j) = late_immediates (areas ! j) \<and>
       area_name (areas2 ! j) = area_name (areas ! j) \<and>
       symbols (areas2 ! j) = symbols (areas ! j) \<and>
       source_map (areas2 ! j) = source_map (areas ! j) \<and>
       length (data (areas ! j)) \<le> length (data (areas2 ! j)) \<and>
       (\<not> (automatic_relocation settings \<and> rt = Some j) \<longrightarrow>
          data (areas2 ! j) = data (areas ! j))" if "j < length areas" for j
      by (simp add: place_area_nth [OF 2 True that])
    show ?thesis
    proof (intro conjI allI impI)
      show "length areas' = length areas"
        using IH len by simp
    next
      fix j assume j: "j < length areas"
      with IH len have a: "late_immediates (areas' ! j) = late_immediates (areas2 ! j)"
        "area_name (areas' ! j) = area_name (areas2 ! j)"
        "symbols (areas' ! j) = symbols (areas2 ! j)"
        "source_map (areas' ! j) = source_map (areas2 ! j)"
        "length (data (areas2 ! j)) \<le> length (data (areas' ! j))"
        by simp_all
      from step [OF j] a show "late_immediates (areas' ! j) = late_immediates (areas ! j)"
        "area_name (areas' ! j) = area_name (areas ! j)"
        "symbols (areas' ! j) = symbols (areas ! j)"
        "source_map (areas' ! j) = source_map (areas ! j)"
        "length (data (areas ! j)) \<le> length (data (areas' ! j))"
        by simp_all
      assume n: "\<not> (automatic_relocation settings \<and> rt = Some j)"
      with IH len j have "data (areas' ! j) = data (areas2 ! j)" by simp
      with step [OF j] n show "data (areas' ! j) = data (areas ! j)" by simp
    qed
  qed
qed

lemma place_from_addresses:
  assumes "place_from settings rt i addr areas = Inr areas'"
    and "automatic_relocation settings \<longrightarrow> rt = Some (length areas - 1)"
  shows "(\<forall>j<i. j < length areas \<longrightarrow> areas' ! j = areas ! j) \<and>
    (i < length areas \<longrightarrow> final_address (areas' ! i) = addr) \<and>
    (\<forall>j. i \<le> j \<and> Suc j < length areas \<longrightarrow>
       final_address (areas' ! Suc j) = final_address (areas' ! j) + data_length (areas' ! j))"
  using assms
proof (induction settings rt i addr areas rule: place_from.induct)
  case (1 settings rt i addr areas)
  show ?case
  proof (cases "i < length areas")
    case False
    with "1.prems" have "areas' = areas"
      by (subst (asm) place_from.simps) simp
    with False show ?thesis by auto
  next
    case True
    with "1.prems" obtain areas2 where
      2: "place_area settings rt i addr areas = Inr areas2"
      and 3: "place_from settings rt (Suc i) (addr + data_length (areas2 ! i)) areas2 = Inr areas'"
      by (subst (asm) place_from.simps) (auto split: sum.splits)
    note len = place_area_length [OF 2]
    have last: "automatic_relocation settings \<longrightarrow> rt = Some (length areas2 - 1)"
      using "1.prems"(2) len by simp
    note IH = "1.IH" [OF True 2 3 last]
    have before: "areas2 ! j = areas ! j" if "j < i" for j
    proof -
      from that True have j: "j < length areas" "j \<noteq> i" by simp_all
      have "\<not> (automatic_relocation settings \<and> rt = Some j)"
        using "1.prems"(2) that True by auto
      with place_area_nth [OF 2 True j(1)] j(2) show ?thesis by simp
    qed
    have at: "final_address (areas2 ! i) = addr"
      using place_area_nth [OF 2 True True] by simp
    have same: "areas' ! i = areas2 ! i"
      using IH True len by simp
    show ?thesis
    proof (intro conjI allI impI)
      fix j assume "j < i" "j < length areas"
      with IH before [of j] len show "areas' ! j = areas ! j" by simp
    next
      show "final_address (areas' ! i) = addr"
        using same at by simp
    next
      fix j assume j: "i \<le> j \<and> Suc j < length areas"
      show "final_address (areas' ! Suc j) = final_address (areas' ! j) + data_length (areas' ! j)"
      proof (cases "j = i")
        case True
        with j IH len have "final_address (areas' ! Suc j) = addr + data_length (areas2 ! i)"
          by simp
        with True same at show ?thesis by simp
      next
        case False
        with j have "Suc i \<le> j \<and> Suc j < length areas2"
          using len by simp
        with IH show ?thesis by blast
      qed
    qed
  qed
qed

lemma place_from_table:
  assumes "place_from settings rt i addr areas = Inr areas'"
    and "automatic_relocation settings" and "rt = Some k" and "k = length areas - 1"
    and "i \<le> k" and "areas \<noteq> []"
  shows "data (areas' ! k) =
     data (areas ! k) @
     concat (map (\<lambda>j. relocation_entries (final_address (areas' ! j)) (late_immediates (areas ! j)))
               [i..<k]) @
     bytes_of_u16 0"
  using assms
proof (induction settings rt i addr areas rule: place_from.induct)
  case (1 settings rt i addr areas)
  from "1.prems"(4,5,6) have True: "i < length areas" and k: "k < length areas"
    by (cases areas; simp)+
  from "1.prems"(1) True obtain areas2 where
    2: "place_area settings rt i addr areas = Inr areas2"
    and 3: "place_from settings rt (Suc i) (addr + data_length (areas2 ! i)) areas2 = Inr areas'"
    by (subst (asm) place_from.simps) (auto split: sum.splits)
  note len = place_area_length [OF 2]
  have last: "automatic_relocation settings \<longrightarrow> rt = Some (length areas - 1)"
    using "1.prems"(3,4) by simp
  from place_from_addresses [OF "1.prems"(1) last] True
  have fa: "final_address (areas' ! i) = addr" by simp
  show ?case
  proof (cases "i = k")
    case True
    then have "\<not> Suc i < length areas2"
      using "1.prems"(4) len by simp
    with 3 have "areas' = areas2"
      by (subst (asm) place_from.simps) simp
    with place_area_nth [OF 2 \<open>i < length areas\<close> k] True "1.prems"(2,3) show ?thesis
      by simp
  next
    case False
    with "1.prems"(5) have lt: "i < k" by simp
    then have "Suc i \<le> k" by simp
    moreover have "k = length areas2 - 1" "areas2 \<noteq> []"
      using "1.prems"(4,6) len by auto
    ultimately have IH: "data (areas' ! k) = data (areas2 ! k) @
       concat (map (\<lambda>j. relocation_entries (final_address (areas' ! j)) (late_immediates (areas2 ! j)))
               [Suc i..<k]) @ bytes_of_u16 0"
      using "1.IH" [OF \<open>i < length areas\<close> 2 3 "1.prems"(2,3)] by blast
    have imms: "late_immediates (areas2 ! j) = late_immediates (areas ! j)" if "j < length areas" for j
      using place_area_nth [OF 2 \<open>i < length areas\<close> that] by simp
    have m: "map (\<lambda>j. relocation_entries (final_address (areas' ! j)) (late_immediates (areas2 ! j)))
               [Suc i..<k] =
             map (\<lambda>j. relocation_entries (final_address (areas' ! j)) (late_immediates (areas ! j)))
               [Suc i..<k]"
      using k by (intro map_cong refl) (simp add: imms)
    have t: "data (areas2 ! k) = data (areas ! k) @
        relocation_entries addr (late_immediates (areas ! i))"
      using place_area_nth [OF 2 \<open>i < length areas\<close> k] False "1.prems"(2,3) by simp
    have u: "[i..<k] = i # [Suc i..<k]"
      using lt by (simp add: upt_conv_Cons)
    show ?thesis
      unfolding IH m t u by (simp add: fa)
  qed
qed

lemma resolve_immediate_total:
  assumes "fits imm d"
  shows "\<exists>d' errs'. resolve_immediate eval fa smap imm (syms, d, errs) =
           Inr (absolute_addresses fa imm, syms, d', errs') \<and> length d' = length d"
proof -
  obtain r e sname where ev:
    "eval (expression imm) (syms @ [sym_pc (instruction_address imm + fa)]) = (r, e, sname)"
    by (cases "eval (expression imm) (syms @ [sym_pc (instruction_address imm + fa)])")
  show ?thesis
  proof (cases e)
    case EXPRESSION_SUCCESS
    with ev have ev': "eval (expression imm) (syms @ [sym_pc (instruction_address imm + fa)]) =
        (r, EXPRESSION_SUCCESS, sname)" by simp
    from assms have b: "unat (address imm) + width imm div 8 \<le> length d"
      by (simp add: fits_def)
    note resolve_immediate_success
        [where eval = eval and imm = imm and syms = syms and fa = fa and smap = smap and errs = errs,
         OF ev' b]
    moreover have "length (patch_le d a n v) = length d" for a n v
      by (simp add: patch_le_def)
    ultimately show ?thesis by blast
  next
    case EXPRESSION_BAD_SYMBOL
    with ev have ev': "eval (expression imm) (syms @ [sym_pc (instruction_address imm + fa)]) =
        (r, EXPRESSION_BAD_SYMBOL, sname)" by simp
    note resolve_immediate_bad_symbol
        [where eval = eval and imm = imm and syms = syms and fa = fa and smap = smap and errs = errs
           and d = d, OF ev']
    then show ?thesis by blast
  next
    case EXPRESSION_BAD_SYNTAX
    with ev have ev': "eval (expression imm) (syms @ [sym_pc (instruction_address imm + fa)]) =
        (r, EXPRESSION_BAD_SYNTAX, sname)" by simp
    note resolve_immediate_bad_syntax
        [where eval = eval and imm = imm and syms = syms and fa = fa and smap = smap and errs = errs
           and d = d, OF ev']
    then show ?thesis by blast
  qed
qed

lemma resolve_loop_total:
  assumes "\<forall>imm \<in> set imms. fits imm d"
  shows "\<exists>r. resolve_loop eval fa smap imms (syms, d, errs) = Inr r"
  using assms
proof (induction imms arbitrary: d errs)
  case Nil
  show ?case by simp
next
  case (Cons imm imms)
  then have "fits imm d" by simp
  from resolve_immediate_total [OF this, of eval fa smap syms errs] obtain d' errs' where
    1: "resolve_immediate eval fa smap imm (syms, d, errs) =
          Inr (absolute_addresses fa imm, syms, d', errs')"
    and len: "length d' = length d"
    by blast
  have "\<forall>imm \<in> set imms. fits imm d'"
    using Cons.prems len by (simp add: fits_def)
  from Cons.IH [OF this, of errs'] obtain r where
    "resolve_loop eval fa smap imms (syms, d', errs') = Inr r" by blast
  with 1 show ?case
    by (cases r) simp
qed

lemma resolve_immediate_values_total:
  assumes "\<forall>imm \<in> set (late_immediates a). fits imm (data a)"
  shows "\<exists>r. resolve_immediate_values eval syms a errs = Inr r"
proof -
  from resolve_loop_total [OF assms, of eval "final_address a" "source_map a" syms errs]
  obtain r where "resolve_loop eval (final_address a) (source_map a) (late_immediates a)
      (syms, data a, errs) = Inr r"
    by blast
  then show ?thesis
    by (cases r) (simp add: resolve_immediate_values_def)
qed

lemma move_origin_funpow:
  "(move_origin origin ^^ n) syms =
     map (\<lambda>s. s\<lparr>sym_value := sym_value s + of_nat n * origin\<rparr>) syms"
proof (induction n)
  case 0
  show ?case by (simp add: map_idI)
next
  case (Suc n)
  then show ?case
    by (simp add: move_origin_def algebra_simps)
qed

lemma emit_areas_frame:
  assumes "emit_areas eval origin areas (syms, errs, final) = Inr (areas', syms', errs', final')"
  shows "list_all2 (\<lambda>a a'. final_address a' = final_address a \<and>
              length (data a') = length (data a) \<and> area_name a' = area_name a \<and>
              late_immediates a' = map (absolute_addresses (final_address a)) (late_immediates a))
           areas areas' \<and>
         final' = final @ concat (map data areas') \<and>
         syms' = (if origin \<noteq> 0 then (move_origin origin ^^ length areas) syms else syms)"
  using assms
proof (induction areas arbitrary: syms errs final areas')
  case Nil
  then show ?case by simp
next
  case (Cons a areas)
  define syms1 where "syms1 = (if origin \<noteq> 0 then move_origin origin syms else syms)"
  from Cons.prems obtain syms2 a2 errs2 where
    1: "resolve_immediate_values eval syms1 a errs = Inr (syms2, a2, errs2)"
    by (auto simp: syms1_def Let_def split: sum.splits)
  from resolve_immediate_values_frame [OF 1] have f: "syms2 = syms1"
    "length (data a2) = length (data a)" "final_address a2 = final_address a"
    "area_name a2 = area_name a"
    "late_immediates a2 = map (absolute_addresses (final_address a)) (late_immediates a)"
    by simp_all
  from Cons.prems 1 obtain rest where
    2: "emit_areas eval origin areas (syms2, errs2, final @ data a2) =
          Inr (rest, syms', errs', final')"
    and a': "areas' = a2 # rest"
    by (auto simp: syms1_def Let_def split: sum.splits)
  from Cons.IH [OF 2] f a' show ?case
    by (auto simp: syms1_def funpow_swap1)
qed

lemma emit_areas_total:
  assumes "\<forall>a \<in> set areas. \<forall>imm \<in> set (late_immediates a). fits imm (data a)"
  shows "\<exists>r. emit_areas eval origin areas (syms, errs, final) = Inr r"
  using assms
proof (induction areas arbitrary: syms errs final)
  case Nil
  show ?case by simp
next
  case (Cons a areas)
  define syms1 where "syms1 = (if origin \<noteq> 0 then move_origin origin syms else syms)"
  from Cons.prems have "\<forall>imm \<in> set (late_immediates a). fits imm (data a)" by simp
  from resolve_immediate_values_total [OF this, of eval syms1 errs] obtain syms2 a2 errs2 where
    1: "resolve_immediate_values eval syms1 a errs = Inr (syms2, a2, errs2)"
    by (metis prod_cases3)
  from Cons.prems have "\<forall>a \<in> set areas. \<forall>imm \<in> set (late_immediates a). fits imm (data a)"
    by simp
  from Cons.IH [OF this, of syms2 errs2 "final @ data a2"] obtain r where
    "emit_areas eval origin areas (syms2, errs2, final @ data a2) = Inr r" by blast
  with 1 show ?case
    by (cases r) (simp add: syms1_def Let_def)
qed

lemma link_objects_Inr:
  assumes "link_objects eval origin settings rt areas = Inr res"
  obtains placed syms errs where
    "place_from settings rt 0 0 areas = Inr placed"
    "gather_areas placed ([], errors settings) = (syms, errs)"
    "emit_areas eval origin placed (syms, errs, []) =
       Inr (merged_areas res, symbol_table res, diagnostics res, out_data res)"
    "out_length res = sint (word_of_nat (length (out_data res)) :: 32 word)"
proof -
  from assms obtain placed where p: "place_from settings rt 0 0 areas = Inr placed"
    by (auto simp: link_objects_def split: sum.splits)
  obtain syms errs where g: "gather_areas placed ([], errors settings) = (syms, errs)"
    by (cases "gather_areas placed ([], errors settings)")
  from assms p g obtain areas' syms' errs' final where
    e: "emit_areas eval origin placed (syms, errs, []) = Inr (areas', syms', errs', final)"
    and r: "res = \<lparr>out_data = final, out_length = sint (word_of_nat (length final) :: 32 word),
              diagnostics = errs', symbol_table = syms', merged_areas = areas'\<rparr>"
    by (auto simp: link_objects_def split: sum.splits)
  from p g e r show ?thesis
    by (intro that [of placed syms errs]) simp_all
qed

lemma link_objects_symbol_table:
  assumes "link_objects eval origin settings rt areas = Inr res"
  shows "\<exists>placed. place_from settings rt 0 0 areas = Inr placed \<and>
     symbol_table res =
       map (\<lambda>s. s\<lparr>sym_value := sym_value s + of_nat (length areas) * origin\<rparr>)
         (fst (gather_areas placed ([], errors settings)))"
proof -
  from assms obtain placed syms errs where
    p: "place_from settings rt 0 0 areas = Inr placed"
    and g: "gather_areas placed ([], errors settings) = (syms, errs)"
    and e: "emit_areas eval origin placed (syms, errs, []) =
       Inr (merged_areas res, symbol_table res, diagnostics res, out_data res)"
    by (rule link_objects_Inr)
  have len: "length placed = length areas"
    using place_from_frame [OF p] by simp
  from emit_areas_frame [OF e] have
    "symbol_table res = (if origin \<noteq> 0 then (move_origin origin ^^ length placed) syms else syms)"
    by simp
  then have "symbol_table res =
      map (\<lambda>s. s\<lparr>sym_value := sym_value s + of_nat (length areas) * origin\<rparr>) syms"
    by (cases "origin = 0") (simp_all add: move_origin_funpow len map_idI)
  with p g show ?thesis by auto
qed

text \<open>
  Claim C3. After a link that returns, with the relocation table (when automatic
  relocation is on) as the last merged area, where \<^verbatim>\<open>link_objects\<close> appends it: the
  areas are as many as and named as the merged areas in input order; the first has final
  address 0 and each next one the final address of the one before plus its length;
  no area but the relocation table changes length; and the output buffer is the
  concatenation of the areas' buffers in that order.
\<close>

theorem placement_is_linear:
  assumes "link_objects eval origin settings rt areas = Inr res"
    and "automatic_relocation settings \<longrightarrow> rt = Some (length areas - 1)"
  shows "length (merged_areas res) = length areas \<and>
    map area_name (merged_areas res) = map area_name areas \<and>
    (areas \<noteq> [] \<longrightarrow> final_address (merged_areas res ! 0) = 0) \<and>
    (\<forall>i. Suc i < length areas \<longrightarrow>
       final_address (merged_areas res ! Suc i) =
       final_address (merged_areas res ! i) + data_length (merged_areas res ! i)) \<and>
    (\<forall>i<length areas. \<not> (automatic_relocation settings \<and> rt = Some i) \<longrightarrow>
       length (data (merged_areas res ! i)) = length (data (areas ! i))) \<and>
    out_data res = concat (map data (merged_areas res))"
proof -
  from assms(1) obtain placed syms errs where
    p: "place_from settings rt 0 0 areas = Inr placed"
    and e: "emit_areas eval origin placed (syms, errs, []) =
       Inr (merged_areas res, symbol_table res, diagnostics res, out_data res)"
    by (rule link_objects_Inr)
  note fr = place_from_frame [OF p]
  note ad = place_from_addresses [OF p assms(2)]
  from emit_areas_frame [OF e] have
    l2: "list_all2 (\<lambda>a a'. final_address a' = final_address a \<and>
              length (data a') = length (data a) \<and> area_name a' = area_name a \<and>
              late_immediates a' = map (absolute_addresses (final_address a)) (late_immediates a))
           placed (merged_areas res)"
    and out: "out_data res = concat (map data (merged_areas res))"
    by simp_all
  have len: "length placed = length areas" "length (merged_areas res) = length areas"
    using fr list_all2_lengthD [OF l2] by simp_all
  have nth: "final_address (merged_areas res ! i) = final_address (placed ! i) \<and>
             length (data (merged_areas res ! i)) = length (data (placed ! i)) \<and>
             area_name (merged_areas res ! i) = area_name (placed ! i)" if "i < length areas" for i
    using list_all2_nthD [OF l2, of i] that len by simp
  have names: "map area_name (merged_areas res) = map area_name areas"
    using len nth fr by (intro nth_equalityI) simp_all
  have first: "areas \<noteq> [] \<longrightarrow> final_address (merged_areas res ! 0) = 0"
    using ad nth [of 0] by simp
  have chain: "final_address (merged_areas res ! Suc i) =
       final_address (merged_areas res ! i) + data_length (merged_areas res ! i)"
    if "Suc i < length areas" for i
  proof -
    from ad that have "final_address (placed ! Suc i) =
        final_address (placed ! i) + data_length (placed ! i)"
      by simp
    with nth [of i] nth [of "Suc i"] that show ?thesis
      by (simp add: data_length_def)
  qed
  have pad: "length (data (merged_areas res ! i)) = length (data (areas ! i))"
    if "i < length areas" "\<not> (automatic_relocation settings \<and> rt = Some i)" for i
    using nth [OF that(1)] fr that by simp
  from len(2) names first chain pad out show ?thesis
    by blast
qed

text \<open>
  Claim C4. Under automatic relocation, with the relocation table as the last merged
  area: after placement the table holds what it held before (nothing, as
  \<^verbatim>\<open>link_objects\<close> creates it), then for every area before it, in order, the entries
  of that area (one 2-byte little-endian entry \<open>offset + final_address\<close>, cut to 16 bits,
  for each late immediate of absolute kind whose offset differs from its base address,
  and none for a relative one), then one 2-byte zero entry.
\<close>

theorem relocation_table_contents:
  assumes "place_from settings rt 0 0 areas = Inr placed"
    and "automatic_relocation settings" and "areas \<noteq> []" and "rt = Some (length areas - 1)"
  shows "data (placed ! (length areas - 1)) =
     data (areas ! (length areas - 1)) @
     concat (map (\<lambda>j. relocation_entries (final_address (placed ! j)) (late_immediates (placed ! j)))
               [0..<length areas - 1]) @
     [0, 0]"
proof -
  note fr = place_from_frame [OF assms(1)]
  have m: "map (\<lambda>j. relocation_entries (final_address (placed ! j)) (late_immediates (placed ! j)))
               [0..<length areas - 1] =
           map (\<lambda>j. relocation_entries (final_address (placed ! j)) (late_immediates (areas ! j)))
               [0..<length areas - 1]"
    using fr by (intro map_cong refl) simp
  have z: "bytes_of_u16 0 = [0, 0]"
    by (simp add: bytes_of_u16_def)
  show ?thesis
    unfolding m
    using place_from_table [OF assms(1,2,4) refl _ assms(3)] z by simp
qed

lemma sint_word_of_nat_32:
  "n < 2 ^ 31 \<Longrightarrow> sint (word_of_nat n :: 32 word) = int n"
proof -
  assume n: "n < 2 ^ 31"
  have "sint (word_of_nat n :: 32 word) = sint (word_of_int (int n) :: 32 word)"
    by simp
  also have "\<dots> = signed_take_bit 31 (int n)"
    by (simp only: sint_sbintrunc') simp
  also have "\<dots> = int n"
    using n by (intro signed_take_bit_int_eq_self) simp_all
  finally show ?thesis .
qed

lemma link_objects_total:
  assumes "\<forall>a \<in> set areas. \<forall>imm \<in> set (late_immediates a). fits imm (data a)"
    and "automatic_relocation settings \<longrightarrow> (\<exists>k<length areas. rt = Some k)"
  shows "\<exists>res. link_objects eval origin settings rt areas = Inr res"
proof -
  from place_from_total [OF assms(2)] obtain placed where
    p: "place_from settings rt 0 0 areas = Inr placed" by blast
  note fr = place_from_frame [OF p]
  have "\<forall>a \<in> set placed. \<forall>imm \<in> set (late_immediates a). fits imm (data a)"
  proof (intro ballI)
    fix a imm assume a: "a \<in> set placed" and imm: "imm \<in> set (late_immediates a)"
    from a obtain j where j: "j < length placed" "a = placed ! j"
      by (auto simp: in_set_conv_nth)
    with fr have 1: "late_immediates a = late_immediates (areas ! j)"
      "length (data (areas ! j)) \<le> length (data a)" "j < length areas"
      by simp_all
    with assms(1) imm have "fits imm (data (areas ! j))"
      by (metis nth_mem)
    with 1 show "fits imm (data a)"
      by (simp add: fits_def)
  qed
  from emit_areas_total [OF this] obtain r where
    "emit_areas eval origin placed (fst (gather_areas placed ([], errors settings)),
       snd (gather_areas placed ([], errors settings)), []) = Inr r"
    by blast
  with p show ?thesis
    by (cases r) (simp add: link_objects_def split_beta)
qed

lemmas link_simps =
  link_objects_def place_from.simps place_area_def relocate_area_def append_to_area_def
  auto_relocate_area_def bytes_of_u16_def data_length_def gather_symbols_def move_origin_def
  ex_boot_def ex_prog_def ex_table_def ex_data_def ex_settings_def ex_area_def ex_foo_def
  needs_relocation_def

text \<open>
  Claim C2, at an input where the code departs from it. Two areas, the first defining
  \<open>Foo = 0x1234\<close>, the second holding a 32-bit absolute reference to it. Linked with
  origin 0 the symbol's final value is \<open>0x1234\<close>; linked with origin \<open>0x8000\<close> it is
  \<open>0x11234\<close>, greater by \<open>0x10000\<close> and not by \<open>0x8000\<close>, and the reference in
  the second area is patched with that value: \<^verbatim>\<open>move_origin\<close> runs once per area
  inside the loop (\<open>link_objects_symbol_table\<close> gives the final values for any number
  of areas).
\<close>

theorem origin_compounds_per_area:
  "\<exists>res0 res1.
     link_objects evaluate_sample 0 (ex_settings False) None [ex_area ''CODE'' [ex_foo], ex_data] =
       Inr res0 \<and>
     link_objects evaluate_sample 0x8000 (ex_settings False) None
       [ex_area ''CODE'' [ex_foo], ex_data] = Inr res1 \<and>
     map sym_value (symbol_table res0) = [0x1234] \<and>
     map sym_value (symbol_table res1) = [0x11234] \<and>
     out_data res0 = [0x34, 0x12, 0, 0] \<and>
     out_data res1 = [0x34, 0x12, 1, 0]"
  by (simp add: link_simps run_simps)

text \<open>
  Claim C6. A late immediate whose evaluation reports an unknown symbol adds exactly one
  unknown-symbol diagnostic, with the failing name and the absolute instruction
  address, leaves the buffer as it is, and the loop goes on with the next immediate.
  And for every evaluator, whatever it reports: when every late immediate fits its area's
  buffer and the relocation table exists if automatic relocation is on, the link
  returns, the buffer handed to the writer is the concatenation of all the areas'
  buffers, and the length handed over is its length (below \<open>2^31\<close> bytes, the length
  being cast to \<^verbatim>\<open>int\<close>).
\<close>

theorem unknown_symbol_does_not_abort:
  "(eval (expression imm) (syms @ [sym_pc (instruction_address imm + fa)]) =
      (r, EXPRESSION_BAD_SYMBOL, sname) \<longrightarrow>
    resolve_immediate eval fa smap imm (syms, d, errs) =
      Inr (absolute_addresses fa imm, syms, d,
           errs @ [Error ERROR_UNKNOWN_SYMBOL smap (instruction_address imm + fa) (Some sname)]) \<and>
    resolve_loop eval fa smap (imm # rest) (syms, d, errs) =
      (case resolve_loop eval fa smap rest
              (syms, d,
               errs @ [Error ERROR_UNKNOWN_SYMBOL smap (instruction_address imm + fa) (Some sname)]) of
         Inl f \<Rightarrow> Inl f
       | Inr (imms, st) \<Rightarrow> Inr (absolute_addresses fa imm # imms, st))) \<and>
   ((\<forall>a \<in> set areas. \<forall>imm \<in> set (late_immediates a). fits imm (data a)) \<and>
    (automatic_relocation settings \<longrightarrow> (\<exists>k<length areas. rt = Some k)) \<longrightarrow>
    (\<exists>res. link_objects eval origin settings rt areas = Inr res \<and>
       length (merged_areas res) = length areas \<and>
       out_data res = concat (map data (merged_areas res)) \<and>
       (length (out_data res) < 2 ^ 31 \<longrightarrow> out_length res = int (length (out_data res)))))"
proof (intro conjI impI)
  assume ev: "eval (expression imm) (syms @ [sym_pc (instruction_address imm + fa)]) =
      (r, EXPRESSION_BAD_SYMBOL, sname)"
  note 1 = resolve_immediate_bad_symbol
    [where eval = eval and imm = imm and syms = syms and fa = fa and smap = smap and d = d
       and errs = errs, OF ev]
  show "resolve_immediate eval fa smap imm (syms, d, errs) =
      Inr (absolute_addresses fa imm, syms, d,
           errs @ [Error ERROR_UNKNOWN_SYMBOL smap (instruction_address imm + fa) (Some sname)])"
    by (rule 1)
  show "resolve_loop eval fa smap (imm # rest) (syms, d, errs) =
      (case resolve_loop eval fa smap rest
              (syms, d,
               errs @ [Error ERROR_UNKNOWN_SYMBOL smap (instruction_address imm + fa) (Some sname)]) of
         Inl f \<Rightarrow> Inl f
       | Inr (imms, st) \<Rightarrow> Inr (absolute_addresses fa imm # imms, st))"
    unfolding resolve_loop.simps 1 by simp
next
  assume h: "(\<forall>a \<in> set areas. \<forall>imm \<in> set (late_immediates a). fits imm (data a)) \<and>
    (automatic_relocation settings \<longrightarrow> (\<exists>k<length areas. rt = Some k))"
  then have h1: "\<forall>a \<in> set areas. \<forall>imm \<in> set (late_immediates a). fits imm (data a)"
    and h2: "automatic_relocation settings \<longrightarrow> (\<exists>k<length areas. rt = Some k)"
    by blast+
  from link_objects_total [OF h1 h2, of eval origin] obtain res where
    res: "link_objects eval origin settings rt areas = Inr res" by blast
  then obtain placed syms errs where
    p: "place_from settings rt 0 0 areas = Inr placed"
    and e: "emit_areas eval origin placed (syms, errs, []) =
       Inr (merged_areas res, symbol_table res, diagnostics res, out_data res)"
    and l: "out_length res = sint (word_of_nat (length (out_data res)) :: 32 word)"
    by (rule link_objects_Inr)
  from emit_areas_frame [OF e] have
    l2: "list_all2 (\<lambda>a a'. final_address a' = final_address a \<and>
              length (data a') = length (data a) \<and> area_name a' = area_name a \<and>
              late_immediates a' = map (absolute_addresses (final_address a)) (late_immediates a))
           placed (merged_areas res)"
    and out: "out_data res = concat (map data (merged_areas res))"
    by simp_all
  have len: "length (merged_areas res) = length areas"
    using place_from_frame [OF p] list_all2_lengthD [OF l2] by simp
  have "length (out_data res) < 2 ^ 31 \<longrightarrow> out_length res = int (length (out_data res))"
    using l by (simp add: sint_word_of_nat_32)
  with res len out
  show "\<exists>res. link_objects eval origin settings rt areas = Inr res \<and>
       length (merged_areas res) = length areas \<and>
       out_data res = concat (map data (merged_areas res)) \<and>
       (length (out_data res) < 2 ^ 31 \<longrightarrow> out_length res = int (length (out_data res)))"
    by blast
qed

theorem unknown_symbol_does_not_abort_witness:
  "resolve_immediate evaluate_sample 0x100 (4::nat)
     (ex_imm IMM_TYPE_ABSOLUTE 16 3 3 4 (Reference ''foo'')) ([], [0xCD, 0, 0, 0, 0, 0], []) =
     Inr (ex_imm IMM_TYPE_ABSOLUTE 16 0x103 0x103 4 (Reference ''foo''), [],
          [0xCD, 0, 0, 0, 0, 0], [Error ERROR_UNKNOWN_SYMBOL 4 0x103 (Some ''foo'')]) \<and>
   (\<exists>res. link_objects evaluate_sample 0 (ex_settings False) None [ex_code] = Inr res \<and>
      out_data res = concat (map data (merged_areas res)) \<and>
      out_length res = int (length (out_data res)) \<and>
      length (out_data res) = 8)"
proof -
  let ?imm = "ex_imm IMM_TYPE_ABSOLUTE 16 3 3 4 (Reference ''foo'')"
  have ev: "evaluate_sample (expression ?imm) ([] @ [sym_pc (instruction_address ?imm + 0x100)]) =
      (0, EXPRESSION_BAD_SYMBOL, ''foo'')"
    by (simp add: ex_imm_def sym_pc_def tolower_def)
  have fit: "(\<forall>a \<in> set [ex_code]. \<forall>imm \<in> set (late_immediates a). fits imm (data a)) \<and>
    (automatic_relocation (ex_settings False) \<longrightarrow> (\<exists>k<length [ex_code]. None = Some k))"
    by (simp add: ex_code_def ex_imm_def fits_def ex_settings_def)
  note t = unknown_symbol_does_not_abort
    [where eval = evaluate_sample and imm = ?imm and syms = "[]" and fa = "0x100" and smap = "4::nat"
       and d = "[0xCD, 0, 0, 0, 0, 0]" and errs = "[]" and r = 0 and sname = "''foo''"
       and areas = "[ex_code]" and settings = "ex_settings False" and rt = None and origin = 0
       and rest = "[]"]
  from t ev have 1: "resolve_immediate evaluate_sample 0x100 (4::nat) ?imm
       ([], [0xCD, 0, 0, 0, 0, 0], []) =
     Inr (absolute_addresses 0x100 ?imm, [], [0xCD, 0, 0, 0, 0, 0],
          [] @ [Error ERROR_UNKNOWN_SYMBOL 4 (instruction_address ?imm + 0x100) (Some ''foo'')])"
    by blast
  from t fit obtain res where res:
    "link_objects evaluate_sample 0 (ex_settings False) None [ex_code] = Inr res"
    "length (merged_areas res) = length [ex_code]"
    "out_data res = concat (map data (merged_areas res))"
    "length (out_data res) < 2 ^ 31 \<longrightarrow> out_length res = int (length (out_data res))"
    by blast
  have "\<exists>res. link_objects evaluate_sample 0 (ex_settings False) None [ex_code] = Inr res \<and>
      length (out_data res) = 8"
    by (simp add: link_simps run_simps ex_code_def)
  with res(1) have 8: "length (out_data res) = 8"
    by auto
  with res(4) have "out_length res = int (length (out_data res))"
    by simp
  with res(1,3) 8 have 2: "\<exists>res. link_objects evaluate_sample 0 (ex_settings False) None [ex_code] = Inr res \<and>
      out_data res = concat (map data (merged_areas res)) \<and>
      out_length res = int (length (out_data res)) \<and>
      length (out_data res) = 8"
    by blast
  have a: "absolute_addresses 0x100 ?imm = ex_imm IMM_TYPE_ABSOLUTE 16 0x103 0x103 4 (Reference ''foo'')"
    "instruction_address ?imm + 0x100 = 0x103"
    by (simp_all add: ex_imm_def absolute_addresses_def)
  from 1 2 show ?thesis
    unfolding a by simp
qed

theorem relocation_table_contents_witness:
  "\<exists>placed. place_from (ex_settings True) (Some 2) 0 0 [ex_boot, ex_prog, ex_table] = Inr placed \<and>
     final_address (placed ! 1) = 0x100 \<and>
     data (placed ! 2) = [0x04, 0x01, 0, 0]"
proof -
  let ?areas = "[ex_boot, ex_prog, ex_table]"
  have "\<exists>placed. place_from (ex_settings True) (Some 2) 0 0 ?areas = Inr placed \<and>
     final_address (placed ! 0) = 0 \<and> final_address (placed ! 1) = 0x100 \<and>
     late_immediates (placed ! 0) = late_immediates ex_boot \<and>
     late_immediates (placed ! 1) = late_immediates ex_prog \<and>
     data ([ex_boot, ex_prog, ex_table] ! (length [ex_boot, ex_prog, ex_table] - 1)) = []"
    by (simp add: link_simps)
  then obtain placed where p: "place_from (ex_settings True) (Some 2) 0 0 ?areas = Inr placed"
    and f: "final_address (placed ! 0) = 0" "final_address (placed ! 1) = 0x100"
    and i: "late_immediates (placed ! 0) = late_immediates ex_boot"
      "late_immediates (placed ! 1) = late_immediates ex_prog"
    and t: "data (?areas ! (length ?areas - 1)) = []"
    by blast
  have h: "automatic_relocation (ex_settings True)" "?areas \<noteq> []"
    "Some 2 = Some (length ?areas - 1)"
    by (simp_all add: ex_settings_def)
  have u: "length ?areas - 1 = 2" "[0..<2] = [0, 1]"
    by (simp_all add: upt_rec)
  have e: "relocation_entries 0 (late_immediates ex_boot) = []"
    "relocation_entries 0x100 (late_immediates ex_prog) = [0x04, 0x01]"
    by (simp_all add: relocation_entries_def ex_boot_def ex_prog_def ex_imm_def bytes_of_u16_def)
  have "data (placed ! (length ?areas - 1)) = [0x04, 0x01, 0, 0]"
    unfolding relocation_table_contents [OF p h] t
    unfolding u list.map concat.simps f i e by simp
  then have "data (placed ! 2) = [0x04, 0x01, 0, 0]"
    unfolding u .
  with p f show ?thesis by blast
qed

lemma length_3_cases: "length xs = 3 \<Longrightarrow> \<exists>a b c. xs = [a, b, c]"
proof -
  assume "length xs = 3"
  then have "length xs = Suc (Suc (Suc 0))" by simp
  then show ?thesis
    by (auto simp: length_Suc_conv)
qed

theorem placement_is_linear_witness:
  "\<exists>res. link_objects evaluate_sample 0 (ex_settings True) (Some 2) [ex_prog, ex_data, ex_table] =
       Inr res \<and>
     map final_address (merged_areas res) = [0, 6, 10] \<and>
     map area_name (merged_areas res) = [''PROG'', ''DATA'', ''__scas_relocation_table''] \<and>
     out_data res = concat (map data (merged_areas res)) \<and>
     out_data res = [0x18, 0x02, 0, 0xCD, 0x34, 0x12, 0x34, 0x12, 0, 0, 4, 0, 6, 0, 0, 0]"
proof -
  let ?areas = "[ex_prog, ex_data, ex_table]"
  have "\<exists>res. link_objects evaluate_sample 0 (ex_settings True) (Some 2) ?areas = Inr res \<and>
     map (\<lambda>a. length (data a)) (merged_areas res) = [6, 4, 6] \<and>
     out_data res = [0x18, 0x02, 0, 0xCD, 0x34, 0x12, 0x34, 0x12, 0, 0, 4, 0, 6, 0, 0, 0]"
    by (simp add: link_simps run_simps)
  then obtain res where r: "link_objects evaluate_sample 0 (ex_settings True) (Some 2) ?areas = Inr res"
    and l: "map (\<lambda>a. length (data a)) (merged_areas res) = [6, 4, 6]"
    and d: "out_data res = [0x18, 0x02, 0, 0xCD, 0x34, 0x12, 0x34, 0x12, 0, 0, 4, 0, 6, 0, 0, 0]"
    by (elim exE conjE)
  have h: "automatic_relocation (ex_settings True) \<longrightarrow> Some 2 = Some (length ?areas - 1)"
    by simp
  note c = placement_is_linear [OF r h]
  note n = c [THEN conjunct1]
  note names = c [THEN conjunct2, THEN conjunct1]
  note f0 = c [THEN conjunct2, THEN conjunct2, THEN conjunct1, rule_format]
  note ch = c [THEN conjunct2, THEN conjunct2, THEN conjunct2, THEN conjunct1, rule_format]
  note out = c [THEN conjunct2, THEN conjunct2, THEN conjunct2, THEN conjunct2, THEN conjunct2]
  from n have "length (merged_areas res) = 3" by simp
  from length_3_cases [OF this] obtain a b c where abc: "merged_areas res = [a, b, c]"
    by blast
  from l abc have len: "length (data a) = 6" "length (data b) = 4"
    by simp_all
  from f0 abc have fa: "final_address a = 0" by simp
  from ch [of 0] abc len fa have fb: "final_address b = 6"
    by (simp add: data_length_def)
  from ch [of 1] abc len fb have fc: "final_address c = 10"
    by (simp add: data_length_def)
  from names abc have nm: "map area_name (merged_areas res) =
      [''PROG'', ''DATA'', ''__scas_relocation_table'']"
    by (simp add: ex_prog_def ex_data_def ex_table_def)
  from abc fa fb fc have fs: "map final_address (merged_areas res) = [0, 6, 10]"
    by simp
  show ?thesis
    by (intro exI [of _ res] conjI) (rule r fs nm out d)+
qed

end
